theory Spec2Isabelle
  imports Complex_Main
begin

section \<open>Approval gates (src/policies/approval.js)\<close>

text \<open>
  The class \<^verbatim>\<open>ApprovalGateManager\<close> is embedded with explicit state passing. One
  record, \<open>world\<close>, holds the fields of the manager (\<open>gates\<close>, \<open>state\<close>,
  \<open>pendingTimers\<close>) and the part of the JavaScript environment the manager acts on:
  the clock, the table of armed timers, the promises it has handed out, the content of
  the state file and the webhook requests it has sent.

  Objects that the code shares by reference are addressed by their index:
  a request object is pushed to \<open>state.requests\<close> once and never removed, so its index in
  that list is its address; a timer handle is an index in \<open>timers\<close>, a promise an index
  in \<open>promises\<close>. The closure that \<^verbatim>\<open>setTimeout\<close> holds is the record \<open>timer\<close>.

  Time is a virtual clock in milliseconds. \<^verbatim>\<open>setTimeout(f, d)\<close> arms a timer that is due
  \<open>d\<close> milliseconds after the present clock, where Node replaces a delay below 1 ms or
  above \<open>2\<^sup>3\<^sup>1 - 1\<close> ms by 1 ms; \<open>advance\<close> runs the event loop up to a given time
  and fires the due timers, earliest first. Numbers are exact rationals. Four functions
  of the runtime are parameters, collected in the record \<open>runtime\<close>.

  Every operation is embedded twice. \<^verbatim>\<open>_saveState\<close> has no \<^verbatim>\<open>try\<close> around it and may
  throw. The functions that carry the names of the methods (\<open>requestApproval\<close>,
  \<open>resolveApproval\<close>, \<open>timeoutCallback\<close>, \<open>advance\<close>) say what a method does when
  \<^verbatim>\<open>_saveState\<close> returns; the functions with the suffix \<open>_io\<close> follow the same
  statements with the exception as a branch: \<^verbatim>\<open>_saveState\<close> asks the file system, a
  parameter, whether it returns or throws, and an exception ends the method at the
  statement that threw.
\<close>

subsection \<open>Data\<close>

text \<open>\<^verbatim>\<open>gate.timeout_minutes\<close>: a number, \<^verbatim>\<open>null\<close>, or no such property.\<close>

datatype jsnum = Absent | Null | Num rat

text \<open>A gate definition \<^verbatim>\<open>{name, phase, timeout_minutes, webhook?}\<close>.\<close>

record gate =
  g_name :: string
  g_phase :: string
  g_timeout_minutes :: jsnum
  g_webhook :: "string option"

text \<open>
  The request object built in \<^verbatim>\<open>requestApproval\<close>. \<^verbatim>\<open>null\<close> is \<open>None\<close>; a time stamp is
  the clock value it renders.
\<close>

record request =
  r_id :: string
  r_phase :: string
  r_gate :: string
  r_status :: string
  r_context :: string
  r_createdAt :: int
  r_resolvedAt :: "int option"
  r_method :: "string option"
  r_reason :: "string option"

text \<open>The record \<^verbatim>\<open>_addAudit\<close> pushes.\<close>

record audit_record =
  a_id :: string
  a_phase :: string
  a_gate :: string
  a_status :: string
  a_method :: "string option"
  a_reason :: "string option"
  a_createdAt :: int
  a_resolvedAt :: "int option"

text \<open>\<^verbatim>\<open>this._state\<close>, the document \<^verbatim>\<open>{requests, audit}\<close>.\<close>

record approval_state =
  requests :: "request list"
  audit :: "audit_record list"

text \<open>The value a promise of \<^verbatim>\<open>requestApproval\<close> resolves with.\<close>

record approval_result =
  approved :: bool
  reason :: string
  res_method :: string

text \<open>
  What the callback given to \<^verbatim>\<open>setTimeout\<close> closes over (\<^verbatim>\<open>requestId\<close>, \<^verbatim>\<open>request\<close>,
  \<^verbatim>\<open>gate\<close>, \<^verbatim>\<open>resolve\<close>), and the time at which the timer is due.
\<close>

record timer =
  t_due :: rat
  t_requestId :: string
  t_request :: nat
  t_gate :: gate
  t_resolve :: nat

text \<open>An entry \<^verbatim>\<open>{timer, resolve, request}\<close> of \<^verbatim>\<open>this._pendingTimers\<close>.\<close>

record pending =
  p_timer :: nat
  p_resolve :: nat
  p_request :: nat

text \<open>The state file as \<^verbatim>\<open>fs\<close> sees it.\<close>

datatype file_node = Missing | Unreadable | Readable string

text \<open>The body of the webhook POST.\<close>

record webhook_payload =
  wp_type :: string
  wp_id :: string
  wp_phase :: string
  wp_gate :: string
  wp_context :: string
  wp_createdAt :: int

text \<open>
  The runtime's functions the code calls: \<^verbatim>\<open>JSON.stringify(state, null, 2)\<close>,
  \<^verbatim>\<open>JSON.parse\<close> (\<open>None\<close> when it throws), the conversion of a number to a string, and
  whether \<^verbatim>\<open>new URL(url)\<close> returns. \<open>JSON_parse js raw = Some s\<close> stands for a text that
  parses to a document \<^verbatim>\<open>{requests, audit}\<close>; a text that parses to a value of another
  shape has no counterpart here (the code keeps such a value as its state, and the
  operations that push to \<^verbatim>\<open>requests\<close> or \<^verbatim>\<open>audit\<close> throw).
\<close>

record runtime =
  JSON_stringify :: "approval_state \<Rightarrow> string"
  JSON_parse :: "string \<Rightarrow> approval_state option"
  Number_toString :: "rat \<Rightarrow> string"
  URL_parses :: "string \<Rightarrow> bool"

record world =
  gates :: "gate list"
  state :: approval_state
  pendingTimers :: "(string \<times> pending) list"
  clock :: int
  timers :: "timer option list"
  promises :: "approval_result list list"
  disk :: file_node
  sent :: "(string \<times> webhook_payload) list"

text \<open>
  What a method throws: the \<^verbatim>\<open>TypeError\<close> of an assignment to a property of
  \<^verbatim>\<open>undefined\<close>, and whatever \<^verbatim>\<open>_saveState\<close> throws (the error of \<^verbatim>\<open>mkdirSync\<close> or
  \<^verbatim>\<open>writeFileSync\<close>, or that of \<^verbatim>\<open>JSON.stringify\<close> for a context it cannot serialize).
\<close>

datatype error = TypeError | SaveError

text \<open>
  The file system, as far as \<^verbatim>\<open>_saveState\<close> depends on it: in the world in which
  \<^verbatim>\<open>_saveState\<close> is called it lets the call return (\<open>None\<close>), or it makes it throw and
  leaves the state file as the node given.
\<close>

type_synonym filesystem = "world \<Rightarrow> file_node option"

text \<open>
  How a method ends: it returns a value or it throws, and the world is as the method
  left it.
\<close>

datatype 'a outcome = Returns 'a world | Throws error world

subsection \<open>Constants\<close>

definition DEFAULT_TIMEOUT_MINUTES :: rat where
  "DEFAULT_TIMEOUT_MINUTES = 30"

definition APPROVAL_STATES :: "string list" where
  "APPROVAL_STATES = [''pending'', ''approved'', ''rejected'', ''timed_out'']"

subsection \<open>JavaScript objects and values\<close>

text \<open>
  \<^verbatim>\<open>this._pendingTimers\<close> is a plain object \<^verbatim>\<open>{}\<close>: an association list of its own
  properties, and behind it the properties every object inherits from
  \<^verbatim>\<open>Object.prototype\<close>. Reading \<^verbatim>\<open>obj[key]\<close> for one of these names yields a function (or
  the prototype itself), which is truthy and has no \<^verbatim>\<open>timer\<close> or \<^verbatim>\<open>request\<close> property.
\<close>

definition Object_prototype_keys :: "string list" where
  "Object_prototype_keys =
     [''constructor'', ''__proto__'', ''toString'', ''toLocaleString'', ''valueOf'',
      ''hasOwnProperty'', ''isPrototypeOf'', ''propertyIsEnumerable'',
      ''__defineGetter__'', ''__defineSetter__'', ''__lookupGetter__'', ''__lookupSetter__'']"

definition obj_get :: "(string \<times> 'a) list \<Rightarrow> string \<Rightarrow> 'a option" where
  "obj_get obj k = map_of obj k"

definition obj_delete :: "string \<Rightarrow> (string \<times> 'a) list \<Rightarrow> (string \<times> 'a) list" where
  "obj_delete k obj = filter (\<lambda>kv. fst kv \<noteq> k) obj"

definition obj_set :: "string \<Rightarrow> 'a \<Rightarrow> (string \<times> 'a) list \<Rightarrow> (string \<times> 'a) list" where
  "obj_set k v obj = obj_delete k obj @ [(k, v)]"

text \<open>\<^verbatim>\<open>x || d\<close> for a \<^verbatim>\<open>timeout_minutes\<close>: zero, \<^verbatim>\<open>null\<close> and \<^verbatim>\<open>undefined\<close> are falsy.\<close>

fun or_default :: "jsnum \<Rightarrow> rat \<Rightarrow> rat" where
  "or_default (Num r) d = (if r = 0 then d else r)"
| "or_default Null d = d"
| "or_default Absent d = d"

text \<open>\<^verbatim>\<open>s || d\<close> for an optional string: the empty string is falsy as well.\<close>

fun str_or_default :: "string option \<Rightarrow> string \<Rightarrow> string" where
  "str_or_default None d = d"
| "str_or_default (Some s) d = (if s = [] then d else s)"

subsection \<open>State persistence\<close>

definition empty_state :: approval_state where
  "empty_state = \<lparr>requests = [], audit = []\<rparr>"

text \<open>
  \<^verbatim>\<open>fs.readFileSync\<close> and \<^verbatim>\<open>JSON.parse\<close> with their exceptions as values; the body of
  the \<^verbatim>\<open>try\<close> block of \<^verbatim>\<open>_loadState\<close> returns \<open>Inr None\<close> when it falls through the
  \<^verbatim>\<open>if\<close> without a \<^verbatim>\<open>return\<close>.
\<close>

datatype io_error = ReadError | SyntaxError

definition existsSync :: "file_node \<Rightarrow> bool" where
  "existsSync f = (f \<noteq> Missing)"

fun readFileSync :: "file_node \<Rightarrow> io_error + string" where
  "readFileSync (Readable raw) = Inr raw"
| "readFileSync Unreadable = Inl ReadError"
| "readFileSync Missing = Inl ReadError"

definition parse :: "runtime \<Rightarrow> string \<Rightarrow> io_error + approval_state" where
  "parse js raw = (case JSON_parse js raw of None \<Rightarrow> Inl SyntaxError | Some s \<Rightarrow> Inr s)"

definition loadState_try :: "runtime \<Rightarrow> file_node \<Rightarrow> io_error + approval_state option" where
  "loadState_try js f =
     (if existsSync f then
        (case readFileSync f of
           Inl e \<Rightarrow> Inl e
         | Inr raw \<Rightarrow> (case parse js raw of Inl e \<Rightarrow> Inl e | Inr s \<Rightarrow> Inr (Some s)))
      else Inr None)"

definition loadState :: "runtime \<Rightarrow> file_node \<Rightarrow> approval_state" where
  "loadState js f =
     (case loadState_try js f of
        Inr (Some s) \<Rightarrow> s
      | Inr None \<Rightarrow> empty_state
      | Inl e \<Rightarrow> empty_state)"

text \<open>
  \<^verbatim>\<open>fs.writeFileSync(path, data)\<close> opens the file with the flag \<^verbatim>\<open>w\<close>, which truncates
  it, and then writes the data: the contents the file has, one after the other.
  \<open>saveState\<close> is \<^verbatim>\<open>_saveState\<close> when it returns; \<open>saveState_io\<close> below is \<^verbatim>\<open>_saveState\<close>
  with its exception.
\<close>

definition writeFileSync_steps :: "string \<Rightarrow> file_node list" where
  "writeFileSync_steps data = [Readable [], Readable data]"

definition writeFileSync :: "string \<Rightarrow> file_node" where
  "writeFileSync data = last (writeFileSync_steps data)"

definition saveState :: "runtime \<Rightarrow> world \<Rightarrow> world" where
  "saveState js w = w\<lparr>disk := writeFileSync (JSON_stringify js (state w))\<rparr>"

text \<open>What a reader of the state file can see while \<^verbatim>\<open>_saveState\<close> runs.\<close>

definition saveState_observable :: "runtime \<Rightarrow> world \<Rightarrow> file_node list" where
  "saveState_observable js w = disk w # writeFileSync_steps (JSON_stringify js (state w))"

subsection \<open>The constructor\<close>

definition constructor :: "runtime \<Rightarrow> gate list \<Rightarrow> int \<Rightarrow> file_node \<Rightarrow> world" where
  "constructor js gs now f =
     \<lparr>gates = gs, state = loadState js f, pendingTimers = [], clock = now,
      timers = [], promises = [], disk = f, sent = []\<rparr>"

subsection \<open>Gate lookup\<close>

fun findGate :: "gate list \<Rightarrow> string \<Rightarrow> gate option" where
  "findGate [] phase = None"
| "findGate (g # gs) phase = (if g_phase g = phase then Some g else findGate gs phase)"

definition hasGate :: "gate list \<Rightarrow> string \<Rightarrow> bool" where
  "hasGate gs phase = (findGate gs phase \<noteq> None)"

subsection \<open>Audit trail, webhook, promises, timers\<close>

definition addAudit :: "request \<Rightarrow> world \<Rightarrow> world" where
  "addAudit r w =
     w\<lparr>state := (state w)\<lparr>audit := audit (state w) @
        [\<lparr>a_id = r_id r, a_phase = r_phase r, a_gate = r_gate r, a_status = r_status r,
          a_method = r_method r, a_reason = r_reason r, a_createdAt = r_createdAt r,
          a_resolvedAt = r_resolvedAt r\<rparr>]\<rparr>\<rparr>"

definition getAuditTrail :: "world \<Rightarrow> audit_record list" where
  "getAuditTrail w = audit (state w)"

definition getPendingRequests :: "world \<Rightarrow> request list" where
  "getPendingRequests w = filter (\<lambda>r. r_status r = ''pending'') (requests (state w))"

text \<open>
  \<^verbatim>\<open>_sendWebhook\<close> is fire-and-forget: whatever the transport does, the manager only
  hands the payload over. The whole body is in a \<^verbatim>\<open>try\<close>: when \<^verbatim>\<open>new URL(url)\<close> throws,
  nothing is sent.
\<close>

definition sendWebhook :: "runtime \<Rightarrow> string \<Rightarrow> request \<Rightarrow> world \<Rightarrow> world" where
  "sendWebhook js url r w =
     (if URL_parses js url then
        w\<lparr>sent := sent w @
           [(url, \<lparr>wp_type = ''approval_request'', wp_id = r_id r, wp_phase = r_phase r,
                   wp_gate = r_gate r, wp_context = r_context r,
                   wp_createdAt = r_createdAt r\<rparr>)]\<rparr>
      else w)"

text \<open>
  A promise is the list of the values its \<^verbatim>\<open>resolve\<close> function was called with; it is
  pending while the list is empty and settled with the first value.
\<close>

definition resolve :: "nat \<Rightarrow> approval_result \<Rightarrow> world \<Rightarrow> world" where
  "resolve p v w = w\<lparr>promises := (promises w)[p := promises w ! p @ [v]]\<rparr>"

definition clearTimeout :: "nat \<Rightarrow> world \<Rightarrow> world" where
  "clearTimeout h w = w\<lparr>timers := (timers w)[h := None]\<rparr>"

text \<open>
  The delay \<^verbatim>\<open>setTimeout(f, after)\<close> arms the timer with: Node's \<^verbatim>\<open>Timeout\<close> replaces a
  delay that is not between 1 and \<^verbatim>\<open>TIMEOUT_MAX\<close> \<open>= 2\<^sup>3\<^sup>1 - 1\<close> by 1. (Node then drops
  the fraction of a millisecond; the model keeps it, so that a timer of the model is due
  no earlier than the timer of Node, and less than a millisecond later.)
\<close>

definition TIMEOUT_MAX :: rat where
  "TIMEOUT_MAX = 2147483647"

definition setTimeout_delay :: "rat \<Rightarrow> rat" where
  "setTimeout_delay after = (if 1 \<le> after \<and> after \<le> TIMEOUT_MAX then after else 1)"

text \<open>Assignment to the fields of the request object at address \<open>i\<close>.\<close>

definition settle :: "nat \<Rightarrow> string \<Rightarrow> int \<Rightarrow> string \<Rightarrow> string \<Rightarrow> world \<Rightarrow> world" where
  "settle i st ts m rs w =
     w\<lparr>state := (state w)\<lparr>requests := (requests (state w))
        [i := (requests (state w) ! i)\<lparr>r_status := st, r_resolvedAt := Some ts,
                                       r_method := Some m, r_reason := Some rs\<rparr>]\<rparr>\<rparr>"

subsection \<open>Request approval\<close>

definition timeout_ms :: "gate \<Rightarrow> rat" where
  "timeout_ms g = or_default (g_timeout_minutes g) DEFAULT_TIMEOUT_MINUTES * 60 * 1000"

definition new_requestId :: "runtime \<Rightarrow> int \<Rightarrow> string \<Rightarrow> string" where
  "new_requestId js now rnd = ''apr-'' @ Number_toString js (of_int now) @ ''-'' @ rnd"

definition timeout_reason :: "runtime \<Rightarrow> gate \<Rightarrow> string" where
  "timeout_reason js g =
     ''Auto-approved after '' @
     Number_toString js (or_default (g_timeout_minutes g) DEFAULT_TIMEOUT_MINUTES) @
     '' minute timeout''"

text \<open>
  \<^verbatim>\<open>requestApproval(phase, context)\<close>. \<open>rnd\<close> is what \<^verbatim>\<open>Math.random\<close> contributes to the
  request id; \<open>ctx\<close> is \<open>None\<close> for a falsy context. The result is the new world and the
  promise returned.
\<close>

definition requestApproval ::
  "runtime \<Rightarrow> string \<Rightarrow> string \<Rightarrow> string option \<Rightarrow> world \<Rightarrow> world \<times> nat" where
  "requestApproval js rnd phase ctx w =
     (case findGate (gates w) phase of
        None \<Rightarrow>
          (w\<lparr>promises := promises w @
               [[\<lparr>approved = True,
                  reason = ''No approval gate configured for phase: '' @ phase,
                  res_method = ''auto''\<rparr>]]\<rparr>,
           length (promises w))
      | Some g \<Rightarrow>
          (let requestId = new_requestId js (clock w) rnd;
               timeout = timeout_ms g;
               req = \<lparr>r_id = requestId, r_phase = phase, r_gate = g_name g,
                      r_status = ''pending'',
                      r_context = (case ctx of None \<Rightarrow> ''{}'' | Some c \<Rightarrow> c),
                      r_createdAt = clock w, r_resolvedAt = None, r_method = None,
                      r_reason = None\<rparr>;
               i = length (requests (state w));
               w1 = w\<lparr>state := (state w)\<lparr>requests := requests (state w) @ [req]\<rparr>\<rparr>;
               w2 = saveState js w1;
               w3 = (case g_webhook g of
                       None \<Rightarrow> w2
                     | Some url \<Rightarrow> if url = [] then w2 else sendWebhook js url req w2);
               p = length (promises w3);
               h = length (timers w3)
           in (w3\<lparr>promises := promises w3 @ [[]],
                  timers := timers w3 @
                    [Some \<lparr>t_due = of_int (clock w3) + setTimeout_delay timeout,
                           t_requestId = requestId,
                           t_request = i, t_gate = g, t_resolve = p\<rparr>],
                  pendingTimers :=
                    obj_set requestId \<lparr>p_timer = h, p_resolve = p, p_request = i\<rparr>
                      (pendingTimers w3)\<rparr>,
               p)))"

text \<open>
  The callback of the timer with handle \<open>h\<close>, run by the event loop when the timer is
  due. A timer fires once: the handle is spent.
\<close>

definition timeoutCallback :: "runtime \<Rightarrow> nat \<Rightarrow> world \<Rightarrow> world" where
  "timeoutCallback js h w =
     (if h < length (timers w) then
        (case timers w ! h of
           None \<Rightarrow> w
         | Some t \<Rightarrow>
            (let w0 = w\<lparr>timers := (timers w)[h := None],
                        clock := max (clock w) (\<lceil>t_due t\<rceil>)\<rparr>;
                 w1 = w0\<lparr>pendingTimers := obj_delete (t_requestId t) (pendingTimers w0)\<rparr>;
                 rs = timeout_reason js (t_gate t);
                 w2 = settle (t_request t) ''timed_out'' (clock w1) ''timeout'' rs w1;
                 w3 = addAudit (requests (state w2) ! t_request t) w2;
                 w4 = saveState js w3
             in resolve (t_resolve t)
                  \<lparr>approved = True, reason = rs, res_method = ''timeout''\<rparr> w4))
      else w)"

subsection \<open>Resolve approval\<close>

text \<open>
  \<^verbatim>\<open>resolveApproval(requestId, approved, reason)\<close>; \<open>rsn\<close> is \<open>None\<close> when the argument is
  left out. For a name inherited from \<^verbatim>\<open>Object.prototype\<close> the lookup is truthy, the
  \<^verbatim>\<open>delete\<close> and \<^verbatim>\<open>clearTimeout(undefined)\<close> do nothing, \<^verbatim>\<open>pending.request\<close> is
  \<^verbatim>\<open>undefined\<close> and the assignment to its \<^verbatim>\<open>status\<close> throws.
\<close>

definition resolveApproval ::
  "runtime \<Rightarrow> string \<Rightarrow> bool \<Rightarrow> string option \<Rightarrow> world \<Rightarrow> error + bool \<times> world" where
  "resolveApproval js requestId appr rsn w =
     (case obj_get (pendingTimers w) requestId of
        None \<Rightarrow>
          if requestId \<in> set Object_prototype_keys then Inl TypeError else Inr (False, w)
      | Some pd \<Rightarrow>
          (let w1 = clearTimeout (p_timer pd) w;
               w2 = w1\<lparr>pendingTimers := obj_delete requestId (pendingTimers w1)\<rparr>;
               rs = str_or_default rsn
                      (if appr then ''Manually approved'' else ''Manually rejected'');
               w3 = settle (p_request pd) (if appr then ''approved'' else ''rejected'')
                      (clock w2) ''manual'' rs w2;
               w4 = addAudit (requests (state w3) ! p_request pd) w3;
               w5 = saveState js w4
           in Inr (True,
                   resolve (p_resolve pd)
                     \<lparr>approved = appr, reason = rs, res_method = ''manual''\<rparr> w5)))"

subsection \<open>Cleanup\<close>

definition destroy :: "world \<Rightarrow> world" where
  "destroy w =
     (fold (\<lambda>kv. clearTimeout (p_timer (snd kv))) (pendingTimers w) w)\<lparr>pendingTimers := []\<rparr>"

subsection \<open>The event loop\<close>

fun count_armed :: "timer option list \<Rightarrow> nat" where
  "count_armed [] = 0"
| "count_armed (None # ts) = count_armed ts"
| "count_armed (Some t # ts) = Suc (count_armed ts)"

definition armed :: "world \<Rightarrow> nat" where
  "armed w = count_armed (timers w)"

definition due_at :: "world \<Rightarrow> nat \<Rightarrow> rat" where
  "due_at w h = (case timers w ! h of None \<Rightarrow> 0 | Some t \<Rightarrow> t_due t)"

definition due_handles :: "int \<Rightarrow> world \<Rightarrow> nat list" where
  "due_handles T w =
     filter (\<lambda>h. case timers w ! h of None \<Rightarrow> False | Some t \<Rightarrow> t_due t \<le> of_int T)
       [0..<length (timers w)]"

text \<open>
  \<open>advance js T w\<close>: the event loop runs until the clock shows \<open>T\<close>. As long as a timer
  is due at or before \<open>T\<close>, the earliest one (the oldest among equals) fires.
\<close>

function advance :: "runtime \<Rightarrow> int \<Rightarrow> world \<Rightarrow> world" where
  "advance js T w =
     (case due_handles T w of
        [] \<Rightarrow> w\<lparr>clock := max (clock w) T\<rparr>
      | h # hs \<Rightarrow> advance js T (timeoutCallback js (arg_min_list (due_at w) (h # hs)) w))"
  by pat_completeness auto

termination advance
proof (relation "measure (\<lambda>(js, T, w). armed w)")
  show "wf (measure (\<lambda>(js, T, w). armed w))" by simp
next
  fix js T w h hs
  assume d: "due_handles T w = h # hs"
  define m where "m = arg_min_list (due_at w) (h # hs)"
  have spent: "i < length ts \<Longrightarrow> ts ! i \<noteq> None \<Longrightarrow>
      count_armed (ts[i := None]) < count_armed ts" for i ts
  proof (induction ts arbitrary: i rule: count_armed.induct)
    case 1
    then show ?case by simp
  next
    case (2 ts)
    then show ?case by (cases i) auto
  next
    case (3 t ts)
    then show ?case by (cases i) auto
  qed
  have "m \<in> set (due_handles T w)"
    using arg_min_list_in [of "h # hs" "due_at w"] d by (simp add: m_def)
  then have m: "m < length (timers w)" "timers w ! m \<noteq> None"
    by (auto simp: due_handles_def split: option.splits)
  then obtain t where t: "timers w ! m = Some t" by auto
  have "timers (timeoutCallback js m w) = (timers w)[m := None]"
    using m t
    by (simp add: timeoutCallback_def Let_def resolve_def saveState_def addAudit_def
        settle_def)
  then have "armed (timeoutCallback js m w) < armed w"
    using spent [OF m] by (simp add: armed_def)
  then show "((js, T, timeoutCallback js (arg_min_list (due_at w) (h # hs)) w), (js, T, w))
      \<in> measure (\<lambda>(js, T, w). armed w)"
    by (simp add: m_def)
qed

declare advance.simps [simp del]

subsection \<open>Sequences of operations\<close>

text \<open>
  What a caller and the passing of time can do to a manager. An exception of
  \<^verbatim>\<open>resolveApproval\<close> is thrown before anything is written, so the world is as it was.
\<close>

datatype op =
    RequestApproval string string "string option"
  | ResolveApproval string bool "string option"
  | Advance int
  | Destroy

fun step :: "runtime \<Rightarrow> op \<Rightarrow> world \<Rightarrow> world" where
  "step js (RequestApproval rnd phase ctx) w = fst (requestApproval js rnd phase ctx w)"
| "step js (ResolveApproval requestId appr rsn) w =
     (case resolveApproval js requestId appr rsn w of
        Inl e \<Rightarrow> w
      | Inr (found, w') \<Rightarrow> w')"
| "step js (Advance T) w = advance js T w"
| "step js Destroy w = destroy w"

fun run :: "runtime \<Rightarrow> op list \<Rightarrow> world \<Rightarrow> world" where
  "run js [] w = w"
| "run js (x # xs) w = run js xs (step js x w)"

fun resolves :: "string \<Rightarrow> op \<Rightarrow> bool" where
  "resolves k (ResolveApproval requestId appr rsn) = (requestId = k)"
| "resolves k x = False"

text \<open>The statuses a request ends in.\<close>

definition terminal :: "string \<Rightarrow> bool" where
  "terminal st = (st = ''approved'' \<or> st = ''rejected'' \<or> st = ''timed_out'')"

subsection \<open>The operations with their exceptions\<close>

text \<open>
  \<^verbatim>\<open>_saveState\<close> with its exception: the file system \<open>fs\<close> lets it write the state, or
  it throws.
\<close>

definition saveState_io :: "filesystem \<Rightarrow> runtime \<Rightarrow> world \<Rightarrow> unit outcome" where
  "saveState_io fs js w =
     (case fs w of
        None \<Rightarrow> Returns () (saveState js w)
      | Some n \<Rightarrow> Throws SaveError (w\<lparr>disk := n\<rparr>))"

text \<open>
  \<^verbatim>\<open>requestApproval\<close>: when \<^verbatim>\<open>_saveState\<close> throws, the request has been pushed, and
  neither the webhook is sent nor the promise made nor the timer armed.
\<close>

definition requestApproval_io ::
  "filesystem \<Rightarrow> runtime \<Rightarrow> string \<Rightarrow> string \<Rightarrow> string option \<Rightarrow> world \<Rightarrow> nat outcome" where
  "requestApproval_io fs js rnd phase ctx w =
     (case findGate (gates w) phase of
        None \<Rightarrow>
          Returns (length (promises w))
            (w\<lparr>promises := promises w @
               [[\<lparr>approved = True,
                  reason = ''No approval gate configured for phase: '' @ phase,
                  res_method = ''auto''\<rparr>]]\<rparr>)
      | Some g \<Rightarrow>
          (let requestId = new_requestId js (clock w) rnd;
               timeout = timeout_ms g;
               req = \<lparr>r_id = requestId, r_phase = phase, r_gate = g_name g,
                      r_status = ''pending'',
                      r_context = (case ctx of None \<Rightarrow> ''{}'' | Some c \<Rightarrow> c),
                      r_createdAt = clock w, r_resolvedAt = None, r_method = None,
                      r_reason = None\<rparr>;
               i = length (requests (state w));
               w1 = w\<lparr>state := (state w)\<lparr>requests := requests (state w) @ [req]\<rparr>\<rparr>
           in (case saveState_io fs js w1 of
                 Throws e w' \<Rightarrow> Throws e w'
               | Returns u w2 \<Rightarrow>
                   (let w3 = (case g_webhook g of
                                None \<Rightarrow> w2
                              | Some url \<Rightarrow>
                                  if url = [] then w2 else sendWebhook js url req w2);
                        p = length (promises w3);
                        h = length (timers w3)
                    in Returns p
                         (w3\<lparr>promises := promises w3 @ [[]],
                             timers := timers w3 @
                               [Some \<lparr>t_due = of_int (clock w3) + setTimeout_delay timeout,
                                      t_requestId = requestId,
                                      t_request = i, t_gate = g, t_resolve = p\<rparr>],
                             pendingTimers :=
                               obj_set requestId
                                 \<lparr>p_timer = h, p_resolve = p, p_request = i\<rparr>
                                 (pendingTimers w3)\<rparr>)))))"

text \<open>
  The callback of the timer: when \<^verbatim>\<open>_saveState\<close> throws, the entry is deleted, the
  request is \<open>timed_out\<close> and audited in memory, and \<^verbatim>\<open>resolve\<close> is not called. Nothing
  catches an exception of a timer callback.
\<close>

definition timeoutCallback_io :: "filesystem \<Rightarrow> runtime \<Rightarrow> nat \<Rightarrow> world \<Rightarrow> unit outcome" where
  "timeoutCallback_io fs js h w =
     (if h < length (timers w) then
        (case timers w ! h of
           None \<Rightarrow> Returns () w
         | Some t \<Rightarrow>
            (let w0 = w\<lparr>timers := (timers w)[h := None],
                        clock := max (clock w) (\<lceil>t_due t\<rceil>)\<rparr>;
                 w1 = w0\<lparr>pendingTimers := obj_delete (t_requestId t) (pendingTimers w0)\<rparr>;
                 rs = timeout_reason js (t_gate t);
                 w2 = settle (t_request t) ''timed_out'' (clock w1) ''timeout'' rs w1;
                 w3 = addAudit (requests (state w2) ! t_request t) w2
             in (case saveState_io fs js w3 of
                   Throws e w' \<Rightarrow> Throws e w'
                 | Returns u w4 \<Rightarrow>
                     Returns ()
                       (resolve (t_resolve t)
                          \<lparr>approved = True, reason = rs, res_method = ''timeout''\<rparr> w4))))
      else Returns () w)"

text \<open>
  \<^verbatim>\<open>resolveApproval\<close>: for an inherited name it throws before it has changed anything;
  when \<^verbatim>\<open>_saveState\<close> throws, the timer is cleared, the entry deleted, the request
  resolved and audited in memory, and \<^verbatim>\<open>pending.resolve\<close> is not called.
\<close>

definition resolveApproval_io ::
  "filesystem \<Rightarrow> runtime \<Rightarrow> string \<Rightarrow> bool \<Rightarrow> string option \<Rightarrow> world \<Rightarrow> bool outcome" where
  "resolveApproval_io fs js requestId appr rsn w =
     (case obj_get (pendingTimers w) requestId of
        None \<Rightarrow>
          if requestId \<in> set Object_prototype_keys then Throws TypeError w
          else Returns False w
      | Some pd \<Rightarrow>
          (let w1 = clearTimeout (p_timer pd) w;
               w2 = w1\<lparr>pendingTimers := obj_delete requestId (pendingTimers w1)\<rparr>;
               rs = str_or_default rsn
                      (if appr then ''Manually approved'' else ''Manually rejected'');
               w3 = settle (p_request pd) (if appr then ''approved'' else ''rejected'')
                      (clock w2) ''manual'' rs w2;
               w4 = addAudit (requests (state w3) ! p_request pd) w3
           in (case saveState_io fs js w4 of
                 Throws e w' \<Rightarrow> Throws e w'
               | Returns u w5 \<Rightarrow>
                   Returns True
                     (resolve (p_resolve pd)
                        \<lparr>approved = appr, reason = rs, res_method = ''manual''\<rparr> w5))))"

text \<open>
  The event loop: nothing in the module catches an exception of a callback, and the loop
  is followed up to the first one.
\<close>

function advance_io :: "filesystem \<Rightarrow> runtime \<Rightarrow> int \<Rightarrow> world \<Rightarrow> unit outcome" where
  "advance_io fs js T w =
     (case due_handles T w of
        [] \<Rightarrow> Returns () (w\<lparr>clock := max (clock w) T\<rparr>)
      | h # hs \<Rightarrow>
          (case timeoutCallback_io fs js (arg_min_list (due_at w) (h # hs)) w of
             Throws e w' \<Rightarrow> Throws e w'
           | Returns u w' \<Rightarrow> advance_io fs js T w'))"
  by pat_completeness auto

termination advance_io
proof (relation "measure (\<lambda>(fs, js, T, w). armed w)")
  show "wf (measure (\<lambda>(fs, js, T, w). armed w))" by simp
next
  fix fs :: filesystem and js T w h hs u w'
  assume d: "due_handles T w = h # hs"
    and r: "timeoutCallback_io fs js (arg_min_list (due_at w) (h # hs)) w = Returns u w'"
  define m where "m = arg_min_list (due_at w) (h # hs)"
  have spent: "i < length ts \<Longrightarrow> ts ! i \<noteq> None \<Longrightarrow>
      count_armed (ts[i := None]) < count_armed ts" for i ts
  proof (induction ts arbitrary: i rule: count_armed.induct)
    case 1
    then show ?case by simp
  next
    case (2 ts)
    then show ?case by (cases i) auto
  next
    case (3 t ts)
    then show ?case by (cases i) auto
  qed
  have "m \<in> set (due_handles T w)"
    using arg_min_list_in [of "h # hs" "due_at w"] d by (simp add: m_def)
  then have m: "m < length (timers w)" "timers w ! m \<noteq> None"
    by (auto simp: due_handles_def split: option.splits)
  then obtain t where t: "timers w ! m = Some t" by auto
  have "timers w' = (timers w)[m := None]"
    using m t r
    by (auto simp: m_def timeoutCallback_io_def saveState_io_def Let_def resolve_def
        saveState_def addAudit_def settle_def split: option.splits)
  then have "armed w' < armed w"
    using spent [OF m] by (simp add: armed_def)
  then show "((fs, js, T, w'), (fs, js, T, w)) \<in> measure (\<lambda>(fs, js, T, w). armed w)"
    by simp
qed

declare advance_io.simps [simp del]

text \<open>
  A sequence of operations, followed as long as nothing throws: the first exception,
  whether a caller would catch it or not, ends the sequence.
\<close>

fun step_io :: "filesystem \<Rightarrow> runtime \<Rightarrow> op \<Rightarrow> world \<Rightarrow> unit outcome" where
  "step_io fs js (RequestApproval rnd phase ctx) w =
     (case requestApproval_io fs js rnd phase ctx w of
        Throws e w' \<Rightarrow> Throws e w'
      | Returns p w' \<Rightarrow> Returns () w')"
| "step_io fs js (ResolveApproval requestId appr rsn) w =
     (case resolveApproval_io fs js requestId appr rsn w of
        Throws e w' \<Rightarrow> Throws e w'
      | Returns found w' \<Rightarrow> Returns () w')"
| "step_io fs js (Advance T) w = advance_io fs js T w"
| "step_io fs js Destroy w = Returns () (destroy w)"

fun run_io :: "filesystem \<Rightarrow> runtime \<Rightarrow> op list \<Rightarrow> world \<Rightarrow> unit outcome" where
  "run_io fs js [] w = Returns () w"
| "run_io fs js (x # xs) w =
     (case step_io fs js x w of
        Throws e w' \<Rightarrow> Throws e w'
      | Returns u w' \<Rightarrow> run_io fs js xs w')"

text \<open>An operation that calls \<^verbatim>\<open>resolveApproval\<close> with an inherited name.\<close>

fun inherited :: "op \<Rightarrow> bool" where
  "inherited (ResolveApproval requestId appr rsn) = (requestId \<in> set Object_prototype_keys)"
| "inherited x = False"

subsection \<open>Well-formed worlds\<close>

text \<open>
  The invariant of the references: an entry of the pending table points to an armed
  timer whose closure holds the entry's key, request and resolver; the closure of an
  armed timer points to a pending request and a pending promise; no two armed timers
  share a request or a promise.
\<close>

definition entry_ok :: "world \<Rightarrow> string \<Rightarrow> pending \<Rightarrow> bool" where
  "entry_ok w k e =
     (p_timer e < length (timers w) \<and>
      (case timers w ! p_timer e of
         None \<Rightarrow> False
       | Some t \<Rightarrow> t_requestId t = k \<and> t_request t = p_request e \<and>
                   t_resolve t = p_resolve e))"

definition timer_ok :: "world \<Rightarrow> timer \<Rightarrow> bool" where
  "timer_ok w t =
     (t_request t < length (requests (state w)) \<and>
      r_status (requests (state w) ! t_request t) = ''pending'' \<and>
      t_resolve t < length (promises w) \<and>
      promises w ! t_resolve t = [] \<and>
      t_requestId t \<notin> set Object_prototype_keys)"

definition apart :: "timer option \<Rightarrow> timer option \<Rightarrow> bool" where
  "apart a b =
     (case a of
        None \<Rightarrow> True
      | Some t \<Rightarrow>
          (case b of
             None \<Rightarrow> True
           | Some t' \<Rightarrow> t_request t \<noteq> t_request t' \<and> t_resolve t \<noteq> t_resolve t'))"

definition wellformed :: "world \<Rightarrow> bool" where
  "wellformed w =
     (list_all (\<lambda>kv. entry_ok w (fst kv) (snd kv)) (pendingTimers w) \<and>
      list_all (\<lambda>a. case a of None \<Rightarrow> True | Some t \<Rightarrow> timer_ok w t) (timers w) \<and>
      list_all (\<lambda>h. list_all (\<lambda>h'. h = h' \<or> apart (timers w ! h) (timers w ! h'))
                  [0..<length (timers w)]) [0..<length (timers w)])"

subsection \<open>How requests and promises change\<close>

text \<open>
  The state machine of a request: it stays as it is, or it leaves \<open>pending\<close> for one of
  the three final statuses. A promise stays as it is, or it is resolved for the first
  time. \<open>world_evolves w w'\<close> says so for every request and every promise of \<open>w\<close>.
\<close>

definition request_evolves :: "request \<Rightarrow> request \<Rightarrow> bool" where
  "request_evolves r r' = (r' = r \<or> (r_status r = ''pending'' \<and> terminal (r_status r')))"

definition promise_evolves :: "approval_result list \<Rightarrow> approval_result list \<Rightarrow> bool" where
  "promise_evolves q q' = (q' = q \<or> (q = [] \<and> length q' = 1))"

definition world_evolves :: "world \<Rightarrow> world \<Rightarrow> bool" where
  "world_evolves w w' =
     (length (requests (state w)) \<le> length (requests (state w')) \<and>
      length (promises w) \<le> length (promises w') \<and>
      list_all (\<lambda>i. request_evolves (requests (state w) ! i) (requests (state w') ! i))
        [0..<length (requests (state w))] \<and>
      list_all (\<lambda>p. promise_evolves (promises w ! p) (promises w' ! p))
        [0..<length (promises w)])"

subsection \<open>What the operations write\<close>

text \<open>
  Names for the values the operations build: the request and the timer closure of
  \<^verbatim>\<open>requestApproval\<close>, and the request object and the result after a timeout and after a
  manual resolution.
\<close>

definition new_request :: "runtime \<Rightarrow> string \<Rightarrow> string \<Rightarrow> string option \<Rightarrow> gate \<Rightarrow> world \<Rightarrow> request" where
  "new_request js rnd phase ctx g w =
     \<lparr>r_id = new_requestId js (clock w) rnd, r_phase = phase, r_gate = g_name g,
      r_status = ''pending'', r_context = (case ctx of None \<Rightarrow> ''{}'' | Some c \<Rightarrow> c),
      r_createdAt = clock w, r_resolvedAt = None, r_method = None, r_reason = None\<rparr>"

definition new_timer :: "runtime \<Rightarrow> string \<Rightarrow> gate \<Rightarrow> world \<Rightarrow> timer" where
  "new_timer js rnd g w =
     \<lparr>t_due = of_int (clock w) + setTimeout_delay (timeout_ms g),
      t_requestId = new_requestId js (clock w) rnd,
      t_request = length (requests (state w)), t_gate = g, t_resolve = length (promises w)\<rparr>"

definition timeout_result :: "runtime \<Rightarrow> gate \<Rightarrow> approval_result" where
  "timeout_result js g = \<lparr>approved = True, reason = timeout_reason js g, res_method = ''timeout''\<rparr>"

definition timed_out :: "runtime \<Rightarrow> gate \<Rightarrow> int \<Rightarrow> request \<Rightarrow> request" where
  "timed_out js g ts r =
     r\<lparr>r_status := ''timed_out'', r_resolvedAt := Some ts, r_method := Some ''timeout'',
       r_reason := Some (timeout_reason js g)\<rparr>"

definition manual_reason :: "bool \<Rightarrow> string option \<Rightarrow> string" where
  "manual_reason appr rsn =
     str_or_default rsn (if appr then ''Manually approved'' else ''Manually rejected'')"

definition manual_result :: "bool \<Rightarrow> string option \<Rightarrow> approval_result" where
  "manual_result appr rsn =
     \<lparr>approved = appr, reason = manual_reason appr rsn, res_method = ''manual''\<rparr>"

definition resolved :: "bool \<Rightarrow> string option \<Rightarrow> int \<Rightarrow> request \<Rightarrow> request" where
  "resolved appr rsn ts r =
     r\<lparr>r_status := (if appr then ''approved'' else ''rejected''), r_resolvedAt := Some ts,
       r_method := Some ''manual'', r_reason := Some (manual_reason appr rsn)\<rparr>"

subsection \<open>A request on its way to the timeout\<close>

text \<open>
  \<open>armed_with w h t\<close>: the timer \<open>h\<close> is armed and holds the closure \<open>t\<close>.
  \<open>timed_out_with js w t\<close>: the callback of \<open>t\<close> has run, the request of \<open>t\<close> is
  \<open>timed_out\<close> and its promise is resolved once, with the result of the timeout.
\<close>

definition armed_with :: "world \<Rightarrow> nat \<Rightarrow> timer \<Rightarrow> bool" where
  "armed_with w h t = (h < length (timers w) \<and> timers w ! h = Some t)"

definition timed_out_with :: "runtime \<Rightarrow> world \<Rightarrow> timer \<Rightarrow> bool" where
  "timed_out_with js w t =
     (t_request t < length (requests (state w)) \<and>
      r_status (requests (state w) ! t_request t) = ''timed_out'' \<and>
      r_method (requests (state w) ! t_request t) = Some ''timeout'' \<and>
      t_resolve t < length (promises w) \<and>
      promises w ! t_resolve t = [timeout_result js (t_gate t)])"

subsection \<open>A runtime and gates for examples\<close>

text \<open>
  The gates of \<^verbatim>\<open>tests/policies/approval.test.js\<close>, and a small runtime for the
  examples: it prints a number that is not negative in decimal digits, with the first
  six digits after the point as far as they are not trailing zeros,
  writes a state as the ids and statuses of its requests and the ids of its audit
  records, parses the empty document only, and takes a string for a URL when it starts
  with \<^verbatim>\<open>http://\<close> or \<^verbatim>\<open>https://\<close>.
\<close>

definition test_gates :: "gate list" where
  "test_gates =
     [\<lparr>g_name = ''pre-deploy'', g_phase = ''deploy'', g_timeout_minutes = Num (1 / 100),
       g_webhook = None\<rparr>,
      \<lparr>g_name = ''pre-release'', g_phase = ''release'', g_timeout_minutes = Num 30,
       g_webhook = None\<rparr>]"

fun digits :: "nat \<Rightarrow> string" where
  "digits n =
     (if n < 10 then [''0123456789'' ! n]
      else digits (n div 10) @ [''0123456789'' ! (n mod 10)])"

definition decimals :: "nat \<Rightarrow> string" where
  "decimals k =
     rev (dropWhile (\<lambda>c. c = CHR ''0'')
       (map (\<lambda>i. ''0123456789'' ! (k div 10 ^ i mod 10)) [0, 1, 2, 3, 4, 5]))"

definition test_runtime :: runtime where
  "test_runtime =
     \<lparr>JSON_stringify =
        (\<lambda>s. ''{'' @ concat (map (\<lambda>r. r_id r @ '':'' @ r_status r @ '';'') (requests s)) @
             ''|'' @ concat (map (\<lambda>a. a_id a @ '';'') (audit s)) @ ''}''),
      JSON_parse = (\<lambda>raw. if raw = ''{|}'' then Some empty_state else None),
      Number_toString =
        (\<lambda>r. digits (nat \<lfloor>r * 1000000\<rfloor> div 1000000) @
             (if nat \<lfloor>r * 1000000\<rfloor> mod 1000000 = 0 then []
              else ''.'' @ decimals (nat \<lfloor>r * 1000000\<rfloor> mod 1000000))),
      URL_parses = (\<lambda>url. take 7 url = ''http://'' \<or> take 8 url = ''https://'')\<rparr>"

text \<open>
  Two file systems for the examples: one that never fails, and one that fails every
  write from the time \<open>t\<close> on and leaves the file as it is.
\<close>

definition no_fault :: filesystem where
  "no_fault w = None"

definition fault_from :: "int \<Rightarrow> filesystem" where
  "fault_from t w = (if clock w < t then None else Some (disk w))"

section \<open>The audit ledger\<close>

text \<open>
  Modelled from the spec: the audit ledger (\<^verbatim>\<open>dashboard/audit.py\<close>, with
  \<^verbatim>\<open>verify_log_integrity\<close>) is not among the sources; only its documentation is. The
  definitions of this section follow sections 3 and 4.1 of the specification. The hash
  function \<open>H\<close> and the canonical serialization \<open>ser\<close> of an entry without its
  \<open>chain_hash\<close> are parameters. A line of a segment either parses to an entry and its
  \<open>chain_hash\<close>, or it does not parse. Entries and lines are counted from 0, as the
  specification counts them.
\<close>

datatype level = Debug | Info | Warning | Error

record audit_entry =
  e_timestamp :: string
  e_event :: string
  e_level :: level
  e_actor :: string
  e_resource :: "string option"
  e_details :: string
  e_metadata :: string

datatype line = Entry audit_entry string | Unparsable string

record ledger =
  cursor :: string
  segment :: "line list"

record verify_result =
  valid :: bool
  entriesChecked :: nat
  firstTamperedLine :: "nat option"

text \<open>Modelled from the spec: the genesis value, 64 zero characters.\<close>

definition genesis :: string where
  "genesis = replicate 64 (CHR ''0'')"

text \<open>
  Modelled from the spec: \<^verbatim>\<open>rotate\<close> starts a new segment with a fresh genesis hash; a
  new ledger starts the same way.
\<close>

definition rotate :: ledger where
  "rotate = \<lparr>cursor = genesis, segment = []\<rparr>"

text \<open>
  Modelled from the spec: \<^verbatim>\<open>append\<close> computes the \<open>chain_hash\<close> from the previous hash
  and the serialized entry, writes one line and advances the cursor.
\<close>

definition chain :: "(string \<Rightarrow> string) \<Rightarrow> (audit_entry \<Rightarrow> string) \<Rightarrow> string \<Rightarrow> audit_entry \<Rightarrow> string" where
  "chain H ser prev e = H (prev @ ser e)"

definition append :: "(string \<Rightarrow> string) \<Rightarrow> (audit_entry \<Rightarrow> string) \<Rightarrow> audit_entry \<Rightarrow> ledger \<Rightarrow> ledger" where
  "append H ser e l =
     l\<lparr>cursor := chain H ser (cursor l) e,
       segment := segment l @ [Entry e (chain H ser (cursor l) e)]\<rparr>"

fun append_all :: "(string \<Rightarrow> string) \<Rightarrow> (audit_entry \<Rightarrow> string) \<Rightarrow> audit_entry list \<Rightarrow> ledger \<Rightarrow> ledger" where
  "append_all H ser [] l = l"
| "append_all H ser (e # es) l = append_all H ser es (append H ser e l)"

text \<open>
  Modelled from the spec: \<^verbatim>\<open>verify\<close> recomputes the chain from genesis and reports the
  first line whose \<open>chain_hash\<close> is not the recomputed value; a line that does not parse
  counts as tampered. \<open>verify_from prev n ls\<close> checks the lines \<open>ls\<close>, the first of which
  is line \<open>n\<close>, against the previous hash \<open>prev\<close>. On a failure \<open>entriesChecked\<close> counts the
  lines that passed (the specification leaves it open).
\<close>

fun verify_from :: "(string \<Rightarrow> string) \<Rightarrow> (audit_entry \<Rightarrow> string) \<Rightarrow> string \<Rightarrow> nat \<Rightarrow> line list \<Rightarrow> verify_result" where
  "verify_from H ser prev n [] =
     \<lparr>valid = True, entriesChecked = n, firstTamperedLine = None\<rparr>"
| "verify_from H ser prev n (Unparsable raw # ls) =
     \<lparr>valid = False, entriesChecked = n, firstTamperedLine = Some n\<rparr>"
| "verify_from H ser prev n (Entry e h # ls) =
     (if chain H ser prev e = h then verify_from H ser h (Suc n) ls
      else \<lparr>valid = False, entriesChecked = n, firstTamperedLine = Some n\<rparr>)"

definition verify :: "(string \<Rightarrow> string) \<Rightarrow> (audit_entry \<Rightarrow> string) \<Rightarrow> line list \<Rightarrow> verify_result" where
  "verify H ser ls = verify_from H ser genesis 0 ls"

text \<open>
  Modelled from the spec: the \<open>chain_hash\<close> a line stores, if the line parses.
\<close>

fun stored_hash :: "line \<Rightarrow> string option" where
  "stored_hash (Entry e h) = Some h"
| "stored_hash (Unparsable raw) = None"

text \<open>
  The lines that appending the entries \<open>es\<close> writes when the cursor is \<open>prev\<close>, and the
  hash the cursor holds before entry \<open>k\<close> is written.
\<close>

fun chain_lines :: "(string \<Rightarrow> string) \<Rightarrow> (audit_entry \<Rightarrow> string) \<Rightarrow> string \<Rightarrow> audit_entry list \<Rightarrow> line list" where
  "chain_lines H ser prev [] = []"
| "chain_lines H ser prev (e # es) =
     Entry e (chain H ser prev e) # chain_lines H ser (chain H ser prev e) es"

fun hash_before :: "(string \<Rightarrow> string) \<Rightarrow> (audit_entry \<Rightarrow> string) \<Rightarrow> string \<Rightarrow> audit_entry list \<Rightarrow> nat \<Rightarrow> string" where
  "hash_before H ser prev es 0 = prev"
| "hash_before H ser prev [] (Suc k) = prev"
| "hash_before H ser prev (e # es) (Suc k) = hash_before H ser (chain H ser prev e) es k"

text \<open>
  Entries and a serialization for examples: the two events of the first end-to-end
  scenario of the specification. The examples take list reversal as the hash, which
  has no collisions.
\<close>

definition test_serialize :: "audit_entry \<Rightarrow> string" where
  "test_serialize e =
     e_timestamp e @ ''|'' @ e_event e @ ''|'' @
     (case e_level e of Debug \<Rightarrow> ''debug'' | Info \<Rightarrow> ''info'' | Warning \<Rightarrow> ''warning''
        | Error \<Rightarrow> ''error'') @ ''|'' @
     e_actor e @ ''|'' @ (case e_resource e of None \<Rightarrow> [] | Some r \<Rightarrow> r) @ ''|'' @
     e_details e @ ''|'' @ e_metadata e"

definition session_start :: audit_entry where
  "session_start =
     \<lparr>e_timestamp = ''2026-02-15T10:00:00Z'', e_event = ''session.start'', e_level = Info,
      e_actor = ''user'', e_resource = None, e_details = ''{}'', e_metadata = ''{}''\<rparr>"

definition session_stop :: audit_entry where
  "session_stop =
     \<lparr>e_timestamp = ''2026-02-15T10:05:00Z'', e_event = ''session.stop'', e_level = Info,
      e_actor = ''user'', e_resource = None, e_details = ''{}'', e_metadata = ''{}''\<rparr>"

section \<open>Proofs about the approval gates\<close>

subsection \<open>The fields after each primitive\<close>

lemma saveState_fields [simp]:
  "gates (saveState js w) = gates w"
  "state (saveState js w) = state w"
  "pendingTimers (saveState js w) = pendingTimers w"
  "clock (saveState js w) = clock w"
  "timers (saveState js w) = timers w"
  "promises (saveState js w) = promises w"
  "sent (saveState js w) = sent w"
  "disk (saveState js w) = Readable (JSON_stringify js (state w))"
  by (simp_all add: saveState_def writeFileSync_def writeFileSync_steps_def)

lemma addAudit_fields [simp]:
  "gates (addAudit r w) = gates w"
  "requests (state (addAudit r w)) = requests (state w)"
  "pendingTimers (addAudit r w) = pendingTimers w"
  "clock (addAudit r w) = clock w"
  "timers (addAudit r w) = timers w"
  "promises (addAudit r w) = promises w"
  "sent (addAudit r w) = sent w"
  "disk (addAudit r w) = disk w"
  by (simp_all add: addAudit_def)

lemma resolve_fields [simp]:
  "gates (resolve p v w) = gates w"
  "state (resolve p v w) = state w"
  "pendingTimers (resolve p v w) = pendingTimers w"
  "clock (resolve p v w) = clock w"
  "timers (resolve p v w) = timers w"
  "promises (resolve p v w) = (promises w)[p := promises w ! p @ [v]]"
  "sent (resolve p v w) = sent w"
  "disk (resolve p v w) = disk w"
  by (simp_all add: resolve_def)

lemma clearTimeout_fields [simp]:
  "gates (clearTimeout h w) = gates w"
  "state (clearTimeout h w) = state w"
  "pendingTimers (clearTimeout h w) = pendingTimers w"
  "clock (clearTimeout h w) = clock w"
  "timers (clearTimeout h w) = (timers w)[h := None]"
  "promises (clearTimeout h w) = promises w"
  "sent (clearTimeout h w) = sent w"
  "disk (clearTimeout h w) = disk w"
  by (simp_all add: clearTimeout_def)

lemma settle_fields [simp]:
  "gates (settle i st ts m rs w) = gates w"
  "audit (state (settle i st ts m rs w)) = audit (state w)"
  "pendingTimers (settle i st ts m rs w) = pendingTimers w"
  "clock (settle i st ts m rs w) = clock w"
  "timers (settle i st ts m rs w) = timers w"
  "promises (settle i st ts m rs w) = promises w"
  "sent (settle i st ts m rs w) = sent w"
  "disk (settle i st ts m rs w) = disk w"
  "length (requests (state (settle i st ts m rs w))) = length (requests (state w))"
  by (simp_all add: settle_def)

lemma settle_requests:
  "requests (state (settle i st ts m rs w)) =
     (requests (state w))[i := (requests (state w) ! i)\<lparr>r_status := st,
        r_resolvedAt := Some ts, r_method := Some m, r_reason := Some rs\<rparr>]"
  by (simp add: settle_def)

lemma sendWebhook_fields [simp]:
  "gates (sendWebhook js url r w) = gates w"
  "state (sendWebhook js url r w) = state w"
  "pendingTimers (sendWebhook js url r w) = pendingTimers w"
  "clock (sendWebhook js url r w) = clock w"
  "timers (sendWebhook js url r w) = timers w"
  "promises (sendWebhook js url r w) = promises w"
  "disk (sendWebhook js url r w) = disk w"
  by (simp_all add: sendWebhook_def)

subsection \<open>The fields after each operation\<close>

lemma requestApproval_gate:
  assumes "findGate (gates w) phase = Some g"
  shows
    "snd (requestApproval js rnd phase ctx w) = length (promises w)"
    "gates (fst (requestApproval js rnd phase ctx w)) = gates w"
    "clock (fst (requestApproval js rnd phase ctx w)) = clock w"
    "requests (state (fst (requestApproval js rnd phase ctx w))) =
       requests (state w) @ [new_request js rnd phase ctx g w]"
    "audit (state (fst (requestApproval js rnd phase ctx w))) = audit (state w)"
    "promises (fst (requestApproval js rnd phase ctx w)) = promises w @ [[]]"
    "timers (fst (requestApproval js rnd phase ctx w)) = timers w @ [Some (new_timer js rnd g w)]"
    "pendingTimers (fst (requestApproval js rnd phase ctx w)) =
       obj_set (new_requestId js (clock w) rnd)
         \<lparr>p_timer = length (timers w), p_resolve = length (promises w),
          p_request = length (requests (state w))\<rparr> (pendingTimers w)"
    "disk (fst (requestApproval js rnd phase ctx w)) =
       Readable (JSON_stringify js (state (fst (requestApproval js rnd phase ctx w))))"
  using assms
  by (simp_all add: requestApproval_def Let_def new_request_def new_timer_def
      split: option.splits)


lemma timeoutCallback_spent:
  "h < length (timers w) \<Longrightarrow> timers w ! h = None \<Longrightarrow> timeoutCallback js h w = w"
  "\<not> h < length (timers w) \<Longrightarrow> timeoutCallback js h w = w"
  by (simp_all add: timeoutCallback_def)

lemma timeoutCallback_armed:
  assumes "h < length (timers w)" "timers w ! h = Some t"
  shows
    "gates (timeoutCallback js h w) = gates w"
    "clock (timeoutCallback js h w) = max (clock w) \<lceil>t_due t\<rceil>"
    "timers (timeoutCallback js h w) = (timers w)[h := None]"
    "pendingTimers (timeoutCallback js h w) = obj_delete (t_requestId t) (pendingTimers w)"
    "requests (state (timeoutCallback js h w)) =
       (requests (state w))[t_request t :=
          timed_out js (t_gate t) (max (clock w) \<lceil>t_due t\<rceil>) (requests (state w) ! t_request t)]"
    "promises (timeoutCallback js h w) =
       (promises w)[t_resolve t := promises w ! t_resolve t @ [timeout_result js (t_gate t)]]"
    "sent (timeoutCallback js h w) = sent w"
    "disk (timeoutCallback js h w) = Readable (JSON_stringify js (state (timeoutCallback js h w)))"
  using assms
  by (simp_all add: timeoutCallback_def Let_def settle_requests timed_out_def timeout_result_def)

lemma timeoutCallback_audit:
  assumes "h < length (timers w)" "timers w ! h = Some t" "t_request t < length (requests (state w))"
  shows "audit (state (timeoutCallback js h w)) = audit (state w) @
       [\<lparr>a_id = r_id (requests (state w) ! t_request t),
         a_phase = r_phase (requests (state w) ! t_request t),
         a_gate = r_gate (requests (state w) ! t_request t),
         a_status = ''timed_out'', a_method = Some ''timeout'',
         a_reason = Some (timeout_reason js (t_gate t)),
         a_createdAt = r_createdAt (requests (state w) ! t_request t),
         a_resolvedAt = Some (max (clock w) \<lceil>t_due t\<rceil>)\<rparr>]"
  using assms
  by (simp add: timeoutCallback_def Let_def settle_requests addAudit_def)

lemma resolveApproval_unknown:
  "obj_get (pendingTimers w) k = None \<Longrightarrow>
   resolveApproval js k appr rsn w =
     (if k \<in> set Object_prototype_keys then Inl TypeError else Inr (False, w))"
  by (simp add: resolveApproval_def)

lemma resolveApproval_found:
  assumes "obj_get (pendingTimers w) k = Some pd"
  shows "\<exists>w'. resolveApproval js k appr rsn w = Inr (True, w') \<and>
    gates w' = gates w \<and> clock w' = clock w \<and>
    timers w' = (timers w)[p_timer pd := None] \<and>
    pendingTimers w' = obj_delete k (pendingTimers w) \<and>
    requests (state w') = (requests (state w))[p_request pd :=
        resolved appr rsn (clock w) (requests (state w) ! p_request pd)] \<and>
    promises w' = (promises w)[p_resolve pd := promises w ! p_resolve pd @ [manual_result appr rsn]] \<and>
    sent w' = sent w \<and>
    disk w' = Readable (JSON_stringify js (state w'))"
  using assms
  by (simp add: resolveApproval_def Let_def settle_requests resolved_def manual_result_def
      manual_reason_def)

lemma resolveApproval_found_audit:
  assumes "obj_get (pendingTimers w) k = Some pd" "p_request pd < length (requests (state w))"
    "resolveApproval js k appr rsn w = Inr (b, w')"
  shows "audit (state w') = audit (state w) @
       [\<lparr>a_id = r_id (requests (state w) ! p_request pd),
         a_phase = r_phase (requests (state w) ! p_request pd),
         a_gate = r_gate (requests (state w) ! p_request pd),
         a_status = (if appr then ''approved'' else ''rejected''), a_method = Some ''manual'',
         a_reason = Some (manual_reason appr rsn),
         a_createdAt = r_createdAt (requests (state w) ! p_request pd),
         a_resolvedAt = Some (clock w)\<rparr>]"
  using assms
  by (auto simp: resolveApproval_def Let_def settle_requests addAudit_def manual_reason_def)


subsection \<open>Well-formed worlds\<close>

lemma wellformed_iff:
  "wellformed w \<longleftrightarrow>
     (\<forall>k e. (k, e) \<in> set (pendingTimers w) \<longrightarrow> entry_ok w k e) \<and>
     (\<forall>h t. h < length (timers w) \<longrightarrow> timers w ! h = Some t \<longrightarrow> timer_ok w t) \<and>
     (\<forall>h h' t t'. h < length (timers w) \<longrightarrow> h' < length (timers w) \<longrightarrow> h \<noteq> h' \<longrightarrow>
        timers w ! h = Some t \<longrightarrow> timers w ! h' = Some t' \<longrightarrow>
        t_request t \<noteq> t_request t' \<and> t_resolve t \<noteq> t_resolve t')"
proof -
  have 1: "list_all (\<lambda>kv. entry_ok w (fst kv) (snd kv)) (pendingTimers w) \<longleftrightarrow>
      (\<forall>k e. (k, e) \<in> set (pendingTimers w) \<longrightarrow> entry_ok w k e)"
    by (auto simp: list_all_iff)
  have 2: "list_all (\<lambda>a. case a of None \<Rightarrow> True | Some t \<Rightarrow> timer_ok w t) (timers w) \<longleftrightarrow>
      (\<forall>h t. h < length (timers w) \<longrightarrow> timers w ! h = Some t \<longrightarrow> timer_ok w t)"
    by (auto simp: list_all_iff all_set_conv_all_nth split: option.splits)
  have 3: "list_all (\<lambda>h. list_all (\<lambda>h'. h = h' \<or> apart (timers w ! h) (timers w ! h'))
                  [0..<length (timers w)]) [0..<length (timers w)] \<longleftrightarrow>
     (\<forall>h h' t t'. h < length (timers w) \<longrightarrow> h' < length (timers w) \<longrightarrow> h \<noteq> h' \<longrightarrow>
        timers w ! h = Some t \<longrightarrow> timers w ! h' = Some t' \<longrightarrow>
        t_request t \<noteq> t_request t' \<and> t_resolve t \<noteq> t_resolve t')"
    unfolding list_all_iff apart_def
    by (simp add: Ball_def split: option.splits) blast
  show ?thesis unfolding wellformed_def 1 2 3 ..
qed

lemma wellformed_entry:
  "wellformed w \<Longrightarrow> (k, e) \<in> set (pendingTimers w) \<Longrightarrow>
   \<exists>t. p_timer e < length (timers w) \<and> timers w ! p_timer e = Some t \<and> t_requestId t = k \<and>
       t_request t = p_request e \<and> t_resolve t = p_resolve e"
  unfolding wellformed_iff entry_ok_def by (fastforce split: option.splits)

lemma wellformed_timer:
  "wellformed w \<Longrightarrow> h < length (timers w) \<Longrightarrow> timers w ! h = Some t \<Longrightarrow>
   t_request t < length (requests (state w)) \<and>
   r_status (requests (state w) ! t_request t) = ''pending'' \<and>
   t_resolve t < length (promises w) \<and> promises w ! t_resolve t = [] \<and>
   t_requestId t \<notin> set Object_prototype_keys"
  unfolding wellformed_iff timer_ok_def by blast

lemma wellformed_apart:
  "wellformed w \<Longrightarrow> h < length (timers w) \<Longrightarrow> h' < length (timers w) \<Longrightarrow>
   timers w ! h = Some t \<Longrightarrow> timers w ! h' = Some t' \<Longrightarrow>
   t_request t = t_request t' \<or> t_resolve t = t_resolve t' \<Longrightarrow> h = h'"
  unfolding wellformed_iff by blast

lemma wellformed_constructor: "wellformed (constructor js gs now f)"
  by (simp add: wellformed_def constructor_def)


lemma set_obj_delete: "set (obj_delete k obj) = {kv \<in> set obj. fst kv \<noteq> k}"
  by (auto simp: obj_delete_def)

lemma set_obj_set: "set (obj_set k v obj) = insert (k, v) {kv \<in> set obj. fst kv \<noteq> k}"
  by (auto simp: obj_set_def obj_delete_def)

lemma obj_get_delete: "obj_get (obj_delete k obj) k = None"
  by (simp add: obj_get_def obj_delete_def map_of_eq_None_iff image_iff)

lemma obj_get_mem: "obj_get obj k = Some v \<Longrightarrow> (k, v) \<in> set obj"
  by (simp add: obj_get_def map_of_SomeD)

lemma new_requestId_not_inherited: "new_requestId js now rnd \<notin> set Object_prototype_keys"
  by (simp add: new_requestId_def Object_prototype_keys_def)

lemma requestApproval_no_gate:
  assumes "findGate (gates w) phase = None"
  shows "requestApproval js rnd phase ctx w =
     (w\<lparr>promises := promises w @
               [[\<lparr>approved = True,
                  reason = ''No approval gate configured for phase: '' @ phase,
                  res_method = ''auto''\<rparr>]]\<rparr>,
           length (promises w))"
  using assms by (simp add: requestApproval_def)

lemma wellformed_requestApproval:
  assumes wf: "wellformed w"
  shows "wellformed (fst (requestApproval js rnd phase ctx w))"
proof (cases "findGate (gates w) phase")
  case None
  have "timer_ok (w\<lparr>promises := promises w @ [[v]]\<rparr>) t" if "timer_ok w t" for t v
    using that by (auto simp: timer_ok_def nth_append)
  then show ?thesis
    using wf unfolding requestApproval_no_gate [OF None]
    by (simp add: wellformed_iff entry_ok_def)
next
  case (Some g)
  let ?w = "fst (requestApproval js rnd phase ctx w)"
  note eqs = requestApproval_gate [OF Some, of js rnd ctx]
  let ?k = "new_requestId js (clock w) rnd"
  let ?t = "new_timer js rnd g w"
  have len: "length (timers ?w) = Suc (length (timers w))"
    by (simp add: eqs)
  have old: "timer_ok ?w t" if "timer_ok w t" for t
    using that by (auto simp: timer_ok_def eqs nth_append)
  have new: "timer_ok ?w ?t"
    by (simp add: timer_ok_def eqs new_timer_def new_request_def new_requestId_not_inherited)
  have entries: "entry_ok ?w k e" if "(k, e) \<in> set (pendingTimers ?w)" for k e
  proof -
    from that consider "k = ?k" "e = \<lparr>p_timer = length (timers w), p_resolve = length (promises w),
          p_request = length (requests (state w))\<rparr>"
      | "(k, e) \<in> set (pendingTimers w)"
      by (auto simp: eqs set_obj_set)
    then show ?thesis
    proof cases
      case 1
      then show ?thesis by (simp add: entry_ok_def eqs new_timer_def)
    next
      case 2
      from wellformed_entry [OF wf 2] show ?thesis
        by (auto simp: entry_ok_def eqs nth_append)
    qed
  qed
  have closures: "timer_ok ?w t" if "h < length (timers ?w)" "timers ?w ! h = Some t" for h t
    using that old new wf
    by (auto simp: eqs nth_append wellformed_iff less_Suc_eq split: if_splits)
  have fresh: "t_request u < t_request ?t \<and> t_resolve u < t_resolve ?t"
    if "i < length (timers w)" "timers w ! i = Some u" for i u
    using wellformed_timer [OF wf that] by (simp add: new_timer_def)
  have apart: "t_request t \<noteq> t_request t' \<and> t_resolve t \<noteq> t_resolve t'"
    if h: "h < length (timers ?w)" "h' < length (timers ?w)" "h \<noteq> h'"
      "timers ?w ! h = Some t" "timers ?w ! h' = Some t'" for h h' t t'
  proof -
    from h(1-3) have "h < length (timers w) \<and> h' < length (timers w) \<or>
        h < length (timers w) \<and> h' = length (timers w) \<or>
        h = length (timers w) \<and> h' < length (timers w)"
      unfolding len by linarith
    then show ?thesis
    proof (elim disjE conjE)
      assume "h < length (timers w)" "h' < length (timers w)"
      with h wf show ?thesis by (auto simp: eqs nth_append wellformed_iff)
    next
      assume "h < length (timers w)" "h' = length (timers w)"
      with h fresh [of h t] show ?thesis by (auto simp: eqs nth_append)
    next
      assume "h = length (timers w)" "h' < length (timers w)"
      with h fresh [of h' t'] show ?thesis by (auto simp: eqs nth_append)
    qed
  qed
  show ?thesis
    unfolding wellformed_iff using entries closures apart by blast
qed


lemma wellformed_consume:
  assumes wf: "wellformed w" and h: "h < length (timers w)" "timers w ! h = Some t"
    and T: "timers w' = (timers w)[h := None]"
    and P: "pendingTimers w' = obj_delete (t_requestId t) (pendingTimers w)"
    and R: "requests (state w') = (requests (state w))[t_request t := r']"
    and Q: "promises w' = (promises w)[t_resolve t := q']"
  shows "wellformed w'"
proof -
  have others: "h2 \<noteq> h \<and> timers w ! h2 = Some t2"
    if "h2 < length (timers w')" "timers w' ! h2 = Some t2" for h2 t2
    using that h by (cases "h2 = h") (auto simp: T)
  have entries: "entry_ok w' k e" if "(k, e) \<in> set (pendingTimers w')" for k e
  proof -
    from that have mem: "(k, e) \<in> set (pendingTimers w)" and k: "k \<noteq> t_requestId t"
      by (auto simp: P set_obj_delete)
    from wellformed_entry [OF wf mem] obtain t2 where t2: "p_timer e < length (timers w)"
      "timers w ! p_timer e = Some t2" "t_requestId t2 = k" "t_request t2 = p_request e"
      "t_resolve t2 = p_resolve e" by blast
    with k h have "p_timer e \<noteq> h" by auto
    with t2 show ?thesis by (simp add: entry_ok_def T)
  qed
  have closures: "timer_ok w' t2" if "h2 < length (timers w')" "timers w' ! h2 = Some t2" for h2 t2
  proof -
    from others [OF that] have ne: "h2 \<noteq> h" and t2: "timers w ! h2 = Some t2" by auto
    from that have h2: "h2 < length (timers w)" by (simp add: T)
    from wellformed_apart [OF wf h2 h(1) t2 h(2)] ne
    have "t_request t2 \<noteq> t_request t" "t_resolve t2 \<noteq> t_resolve t" by auto
    with wellformed_timer [OF wf h2 t2] show ?thesis
      by (simp add: timer_ok_def R Q)
  qed
  have apart: "t_request t2 \<noteq> t_request t3 \<and> t_resolve t2 \<noteq> t_resolve t3"
    if "h2 < length (timers w')" "h3 < length (timers w')" "h2 \<noteq> h3"
      "timers w' ! h2 = Some t2" "timers w' ! h3 = Some t3" for h2 h3 t2 t3
  proof -
    from others [OF that(1,4)] others [OF that(2,5)] that(1,2,3)
    show ?thesis using wellformed_apart [OF wf, of h2 h3 t2 t3] by (auto simp: T)
  qed
  show ?thesis
    unfolding wellformed_iff using entries closures apart by blast
qed

lemma wellformed_timeoutCallback:
  assumes wf: "wellformed w"
  shows "wellformed (timeoutCallback js h w)"
proof (cases "h < length (timers w) \<and> timers w ! h \<noteq> None")
  case True
  then obtain t where t: "h < length (timers w)" "timers w ! h = Some t" by auto
  show ?thesis
    by (rule wellformed_consume [OF wf t]) (simp_all add: timeoutCallback_armed [OF t])
next
  case False
  then have "timeoutCallback js h w = w"
    by (cases "h < length (timers w)") (auto simp: timeoutCallback_spent)
  with wf show ?thesis by simp
qed

lemma wellformed_resolveApproval:
  assumes wf: "wellformed w" and res: "resolveApproval js k appr rsn w = Inr (b, w')"
  shows "wellformed w'"
proof (cases "obj_get (pendingTimers w) k")
  case None
  with res wf show ?thesis
    by (auto simp: resolveApproval_unknown split: if_splits)
next
  case (Some pd)
  from wellformed_entry [OF wf obj_get_mem [OF Some]] obtain t where
    t: "p_timer pd < length (timers w)" "timers w ! p_timer pd = Some t" and
    eq: "t_requestId t = k" "t_request t = p_request pd" "t_resolve t = p_resolve pd"
    by blast
  from resolveApproval_found [OF Some, of js appr rsn] res
  show ?thesis
    by (intro wellformed_consume [OF wf t]) (auto simp: eq)
qed

lemma destroy_fold_fields:
  "gates (fold (\<lambda>kv. clearTimeout (p_timer (snd kv))) es w) = gates w \<and>
   state (fold (\<lambda>kv. clearTimeout (p_timer (snd kv))) es w) = state w \<and>
   clock (fold (\<lambda>kv. clearTimeout (p_timer (snd kv))) es w) = clock w \<and>
   promises (fold (\<lambda>kv. clearTimeout (p_timer (snd kv))) es w) = promises w \<and>
   sent (fold (\<lambda>kv. clearTimeout (p_timer (snd kv))) es w) = sent w \<and>
   disk (fold (\<lambda>kv. clearTimeout (p_timer (snd kv))) es w) = disk w \<and>
   length (timers (fold (\<lambda>kv. clearTimeout (p_timer (snd kv))) es w)) = length (timers w)"
  by (induction es arbitrary: w) simp_all

lemma destroy_fold_timers:
  "timers (fold (\<lambda>kv. clearTimeout (p_timer (snd kv))) es w) ! h = Some t \<Longrightarrow>
   timers w ! h = Some t"
proof (induction es arbitrary: w)
  case Nil
  then show ?case by simp
next
  case (Cons e es)
  from Cons.IH [OF Cons.prems [simplified]]
  show ?case
    by (cases "h = p_timer (snd e)"; cases "h < length (timers w)")
      (simp_all add: list_update_beyond)
qed

lemma destroy_fields [simp]:
  "gates (destroy w) = gates w"
  "state (destroy w) = state w"
  "clock (destroy w) = clock w"
  "promises (destroy w) = promises w"
  "sent (destroy w) = sent w"
  "disk (destroy w) = disk w"
  "pendingTimers (destroy w) = []"
  "length (timers (destroy w)) = length (timers w)"
  by (simp_all add: destroy_def destroy_fold_fields)

lemma destroy_timers:
  assumes "timers (destroy w) ! h = Some t"
  shows "timers w ! h = Some t"
proof -
  from assms have "timers (fold (\<lambda>kv. clearTimeout (p_timer (snd kv))) (pendingTimers w) w) ! h = Some t"
    by (simp add: destroy_def)
  then show ?thesis by (rule destroy_fold_timers)
qed

lemma wellformed_destroy:
  assumes wf: "wellformed w"
  shows "wellformed (destroy w)"
proof -
  have "timer_ok (destroy w) t" if "h < length (timers (destroy w))" "timers (destroy w) ! h = Some t" for h t
    using wellformed_timer [OF wf, of h t] that destroy_timers [of w h t]
    by (simp add: timer_ok_def)
  moreover have "t_request t \<noteq> t_request t' \<and> t_resolve t \<noteq> t_resolve t'"
    if "h < length (timers (destroy w))" "h' < length (timers (destroy w))" "h \<noteq> h'"
      "timers (destroy w) ! h = Some t" "timers (destroy w) ! h' = Some t'" for h h' t t'
    using wellformed_apart [OF wf, of h h' t t'] that destroy_timers [of w h t]
      destroy_timers [of w h' t'] by auto
  ultimately show ?thesis
    unfolding wellformed_iff by simp
qed

lemma due_handles_mem:
  "h \<in> set (due_handles T w) \<longleftrightarrow>
     h < length (timers w) \<and> (\<exists>t. timers w ! h = Some t \<and> t_due t \<le> of_int T)"
  by (auto simp: due_handles_def split: option.splits)

lemma advance_idle: "due_handles T w = [] \<Longrightarrow> advance js T w = w\<lparr>clock := max (clock w) T\<rparr>"
  by (subst advance.simps) simp

lemma advance_fire:
  "due_handles T w = h # hs \<Longrightarrow>
   advance js T w = advance js T (timeoutCallback js (arg_min_list (due_at w) (h # hs)) w)"
  by (subst advance.simps) simp

lemma next_due:
  assumes "due_handles T w = h # hs"
  shows "arg_min_list (due_at w) (h # hs) \<in> set (due_handles T w)"
  using arg_min_list_in [of "h # hs" "due_at w"] assms by simp

lemma wellformed_clock [simp]: "wellformed (w\<lparr>clock := c\<rparr>) = wellformed w"
  by (simp add: wellformed_iff entry_ok_def timer_ok_def)

lemma wellformed_advance: "wellformed w \<Longrightarrow> wellformed (advance js T w)"
proof (induction js T w rule: advance.induct)
  case (1 js T w)
  show ?case
  proof (cases "due_handles T w")
    case Nil
    with 1(2) show ?thesis by (simp add: advance_idle)
  next
    case (Cons h hs)
    have "wellformed (timeoutCallback js (arg_min_list (due_at w) (h # hs)) w)"
      using 1(2) by (rule wellformed_timeoutCallback)
    from 1(1) [OF Cons this] show ?thesis
      by (simp only: advance_fire [OF Cons])
  qed
qed

lemma wellformed_step: "wellformed w \<Longrightarrow> wellformed (step js x w)"
proof (cases x)
  case (RequestApproval rnd phase ctx)
  assume "wellformed w"
  then show ?thesis
    by (simp add: RequestApproval wellformed_requestApproval)
next
  case (ResolveApproval k appr rsn)
  assume wf: "wellformed w"
  show ?thesis
  proof (cases "resolveApproval js k appr rsn w")
    case (Inl e)
    with wf show ?thesis by (simp add: ResolveApproval)
  next
    case (Inr bw)
    then have "resolveApproval js k appr rsn w = Inr (fst bw, snd bw)" by simp
    from wellformed_resolveApproval [OF wf this] Inr show ?thesis
      by (cases bw) (simp add: ResolveApproval)
  qed
next
  case (Advance T)
  assume "wellformed w"
  then show ?thesis by (simp add: Advance wellformed_advance)
next
  case Destroy
  assume "wellformed w"
  then show ?thesis by (simp add: Destroy wellformed_destroy)
qed

lemma wellformed_run: "wellformed w \<Longrightarrow> wellformed (run js xs w)"
  by (induction xs arbitrary: w) (simp_all add: wellformed_step)

subsection \<open>Requests and promises only move forward\<close>

lemma terminal_not_pending: "terminal st \<Longrightarrow> st \<noteq> ''pending''"
  by (auto simp: terminal_def)

lemma request_evolves_refl [simp]: "request_evolves r r"
  by (simp add: request_evolves_def)

lemma promise_evolves_refl [simp]: "promise_evolves q q"
  by (simp add: promise_evolves_def)

lemma request_evolves_trans:
  "request_evolves r r' \<Longrightarrow> request_evolves r' r'' \<Longrightarrow> request_evolves r r''"
  by (auto simp: request_evolves_def dest: terminal_not_pending)

lemma promise_evolves_trans:
  "promise_evolves q q' \<Longrightarrow> promise_evolves q' q'' \<Longrightarrow> promise_evolves q q''"
  by (auto simp: promise_evolves_def)

lemma world_evolves_iff:
  "world_evolves w w' \<longleftrightarrow>
     length (requests (state w)) \<le> length (requests (state w')) \<and>
     length (promises w) \<le> length (promises w') \<and>
     (\<forall>i<length (requests (state w)).
        request_evolves (requests (state w) ! i) (requests (state w') ! i)) \<and>
     (\<forall>p<length (promises w). promise_evolves (promises w ! p) (promises w' ! p))"
  by (auto simp: world_evolves_def list_all_iff)

lemma world_evolves_refl [simp]: "world_evolves w w"
  by (simp add: world_evolves_iff)

lemma world_evolves_trans:
  assumes "world_evolves w w'" "world_evolves w' w''"
  shows "world_evolves w w''"
  unfolding world_evolves_iff
proof (intro conjI allI impI)
  show "length (requests (state w)) \<le> length (requests (state w''))"
    using assms by (simp add: world_evolves_iff)
  show "length (promises w) \<le> length (promises w'')"
    using assms by (simp add: world_evolves_iff)
next
  fix i assume "i < length (requests (state w))"
  with assms show "request_evolves (requests (state w) ! i) (requests (state w'') ! i)"
    by (auto simp: world_evolves_iff intro: request_evolves_trans)
next
  fix p assume "p < length (promises w)"
  with assms show "promise_evolves (promises w ! p) (promises w'' ! p)"
    by (auto simp: world_evolves_iff intro: promise_evolves_trans)
qed

lemma world_evolves_clock [simp]: "world_evolves w (w'\<lparr>clock := c\<rparr>) = world_evolves w w'"
  by (simp add: world_evolves_def)

lemma world_evolves_consume:
  assumes wf: "wellformed w" and h: "h < length (timers w)" "timers w ! h = Some t"
    and R: "requests (state w') = (requests (state w))[t_request t := r']"
    and r': "terminal (r_status r')"
    and Q: "promises w' = (promises w)[t_resolve t := promises w ! t_resolve t @ [v]]"
  shows "world_evolves w w'"
proof -
  note ok = wellformed_timer [OF wf h]
  have "request_evolves (requests (state w) ! i) (requests (state w') ! i)"
    if "i < length (requests (state w))" for i
    using that ok r' by (cases "i = t_request t") (simp_all add: R request_evolves_def)
  moreover have "promise_evolves (promises w ! p) (promises w' ! p)"
    if "p < length (promises w)" for p
    using that ok by (cases "p = t_resolve t") (simp_all add: Q promise_evolves_def)
  ultimately show ?thesis
    by (simp add: world_evolves_iff R Q)
qed

lemma timed_out_status [simp]: "r_status (timed_out js g ts r) = ''timed_out''"
  by (simp add: timed_out_def)

lemma resolved_status [simp]:
  "r_status (resolved appr rsn ts r) = (if appr then ''approved'' else ''rejected'')"
  by (simp add: resolved_def)

lemma world_evolves_timeoutCallback:
  assumes wf: "wellformed w"
  shows "world_evolves w (timeoutCallback js h w)"
proof (cases "h < length (timers w) \<and> timers w ! h \<noteq> None")
  case True
  then obtain t where t: "h < length (timers w)" "timers w ! h = Some t" by auto
  show ?thesis
    by (rule world_evolves_consume [OF wf t, where v = "timeout_result js (t_gate t)" and
          r' = "timed_out js (t_gate t) (max (clock w) \<lceil>t_due t\<rceil>)
            (requests (state w) ! t_request t)"])
      (simp_all add: timeoutCallback_armed [OF t] terminal_def)
next
  case False
  then have "timeoutCallback js h w = w"
    by (cases "h < length (timers w)") (auto simp: timeoutCallback_spent)
  then show ?thesis by simp
qed

lemma world_evolves_resolveApproval:
  assumes wf: "wellformed w" and res: "resolveApproval js k appr rsn w = Inr (b, w')"
  shows "world_evolves w w'"
proof (cases "obj_get (pendingTimers w) k")
  case None
  with res show ?thesis
    by (auto simp: resolveApproval_unknown split: if_splits)
next
  case (Some pd)
  from wellformed_entry [OF wf obj_get_mem [OF Some]] obtain t where
    t: "p_timer pd < length (timers w)" "timers w ! p_timer pd = Some t" and
    eq: "t_requestId t = k" "t_request t = p_request pd" "t_resolve t = p_resolve pd"
    by blast
  from resolveApproval_found [OF Some, of js appr rsn] res
  show ?thesis
    by (intro world_evolves_consume [OF wf t, where r' = "resolved appr rsn (clock w)
        (requests (state w) ! p_request pd)" and v = "manual_result appr rsn"])
      (auto simp: eq terminal_def)
qed

lemma world_evolves_requestApproval:
  "world_evolves w (fst (requestApproval js rnd phase ctx w))"
proof (cases "findGate (gates w) phase")
  case None
  then show ?thesis
    by (simp add: requestApproval_no_gate world_evolves_iff nth_append)
next
  case (Some g)
  then show ?thesis
    by (simp add: requestApproval_gate world_evolves_iff nth_append)
qed

lemma world_evolves_destroy: "world_evolves w (destroy w)"
  by (simp add: world_evolves_iff)

lemma world_evolves_advance: "wellformed w \<Longrightarrow> world_evolves w (advance js T w)"
proof (induction js T w rule: advance.induct)
  case (1 js T w)
  show ?case
  proof (cases "due_handles T w")
    case Nil
    then show ?thesis by (simp add: advance_idle)
  next
    case (Cons h hs)
    let ?w = "timeoutCallback js (arg_min_list (due_at w) (h # hs)) w"
    have "wellformed ?w" using 1(2) by (rule wellformed_timeoutCallback)
    from 1(1) [OF Cons this] have "world_evolves ?w (advance js T w)"
      by (simp only: advance_fire [OF Cons])
    with world_evolves_timeoutCallback [OF 1(2)] show ?thesis
      by (rule world_evolves_trans)
  qed
qed

lemma world_evolves_step: "wellformed w \<Longrightarrow> world_evolves w (step js x w)"
proof (cases x)
  case (RequestApproval rnd phase ctx)
  then show ?thesis by (simp add: world_evolves_requestApproval)
next
  case (ResolveApproval k appr rsn)
  assume wf: "wellformed w"
  show ?thesis
  proof (cases "resolveApproval js k appr rsn w")
    case (Inl e)
    then show ?thesis by (simp add: ResolveApproval)
  next
    case (Inr bw)
    then have "resolveApproval js k appr rsn w = Inr (fst bw, snd bw)" by simp
    from world_evolves_resolveApproval [OF wf this] Inr show ?thesis
      by (cases bw) (simp add: ResolveApproval)
  qed
next
  case (Advance T)
  assume "wellformed w"
  then show ?thesis by (simp add: Advance world_evolves_advance)
next
  case Destroy
  then show ?thesis by (simp add: world_evolves_destroy)
qed

lemma world_evolves_run: "wellformed w \<Longrightarrow> world_evolves w (run js xs w)"
proof (induction xs arbitrary: w)
  case Nil
  then show ?case by simp
next
  case (Cons x xs)
  from Cons.prems have "wellformed (step js x w)" by (rule wellformed_step)
  from Cons.IH [OF this] world_evolves_step [OF Cons.prems, of js x]
  show ?case by (auto intro: world_evolves_trans)
qed

subsection \<open>From the request to the timeout\<close>

lemma timed_out_method [simp]: "r_method (timed_out js g ts r) = Some ''timeout''"
  by (simp add: timed_out_def)

lemma fire_own:
  assumes wf: "wellformed w" and a: "armed_with w h t"
  shows "timed_out_with js (timeoutCallback js h w) t"
proof -
  from a have t: "h < length (timers w)" "timers w ! h = Some t"
    by (simp_all add: armed_with_def)
  from wellformed_timer [OF wf t] show ?thesis
    by (simp add: timed_out_with_def timeoutCallback_armed [OF t])
qed

lemma fire_other:
  assumes a: "armed_with w h t" and ne: "h' \<noteq> h"
  shows "armed_with (timeoutCallback js h' w) h t"
proof (cases "h' < length (timers w) \<and> timers w ! h' \<noteq> None")
  case True
  then obtain t' where t': "h' < length (timers w)" "timers w ! h' = Some t'" by auto
  from a ne show ?thesis
    by (simp add: armed_with_def timeoutCallback_armed [OF t'])
next
  case False
  then have "timeoutCallback js h' w = w"
    by (cases "h' < length (timers w)") (auto simp: timeoutCallback_spent)
  with a show ?thesis by simp
qed

lemma timed_out_with_stable:
  assumes d: "timed_out_with js w t" and ev: "world_evolves w w'"
  shows "timed_out_with js w' t"
proof -
  from d have r: "t_request t < length (requests (state w))"
    and p: "t_resolve t < length (promises w)"
    by (simp_all add: timed_out_with_def)
  from ev r have "request_evolves (requests (state w) ! t_request t) (requests (state w') ! t_request t)"
    by (simp add: world_evolves_iff)
  with d have 1: "requests (state w') ! t_request t = requests (state w) ! t_request t"
    by (auto simp: request_evolves_def timed_out_with_def)
  from ev p have "promise_evolves (promises w ! t_resolve t) (promises w' ! t_resolve t)"
    by (simp add: world_evolves_iff)
  with d have 2: "promises w' ! t_resolve t = promises w ! t_resolve t"
    by (auto simp: promise_evolves_def timed_out_with_def)
  from ev r p have "t_request t < length (requests (state w'))" "t_resolve t < length (promises w')"
    by (auto simp: world_evolves_iff)
  with d 1 2 show ?thesis by (simp add: timed_out_with_def)
qed

lemma advance_armed:
  "wellformed w \<Longrightarrow> armed_with w h t \<Longrightarrow>
   (if t_due t \<le> of_int T then timed_out_with js (advance js T w) t
    else armed_with (advance js T w) h t)"
proof (induction js T w rule: advance.induct)
  case (1 js T w)
  note wf = 1(2) and a = 1(3)
  show ?case
  proof (cases "due_handles T w")
    case Nil
    have "\<not> t_due t \<le> of_int T"
    proof
      assume "t_due t \<le> of_int T"
      with a have "h \<in> set (due_handles T w)"
        by (auto simp: due_handles_mem armed_with_def)
      with Nil show False by simp
    qed
    with a show ?thesis by (simp add: advance_idle [OF Nil] armed_with_def)
  next
    case (Cons h0 hs)
    let ?m = "arg_min_list (due_at w) (h0 # hs)"
    let ?w = "timeoutCallback js ?m w"
    have wf': "wellformed ?w" using wf by (rule wellformed_timeoutCallback)
    have m: "?m \<in> set (due_handles T w)" using Cons by (rule next_due)
    have adv: "advance js T w = advance js T ?w" by (rule advance_fire [OF Cons])
    show ?thesis
    proof (cases "?m = h")
      case True
      with m a have due: "t_due t \<le> of_int T"
        by (auto simp: due_handles_mem armed_with_def)
      from fire_own [OF wf a] True have "timed_out_with js ?w t" by simp
      from timed_out_with_stable [OF this world_evolves_advance [OF wf']] due
      show ?thesis by (simp only: adv if_True)
    next
      case False
      then have "armed_with ?w h t" using a by (intro fire_other) auto
      from 1(1) [OF Cons wf' this] show ?thesis by (simp only: adv)
    qed
  qed
qed

lemma step_armed:
  assumes wf: "wellformed w" and a: "armed_with w h t"
    and x: "x \<noteq> Destroy" "\<not> resolves (t_requestId t) x"
  shows "armed_with (step js x w) h t \<or> timed_out_with js (step js x w) t"
proof (cases x)
  case (RequestApproval rnd phase ctx)
  from a have "armed_with (fst (requestApproval js rnd phase ctx w)) h t"
    by (cases "findGate (gates w) phase")
      (auto simp: armed_with_def requestApproval_no_gate requestApproval_gate nth_append)
  then show ?thesis by (simp add: RequestApproval)
next
  case (ResolveApproval k appr rsn)
  with x have k: "k \<noteq> t_requestId t" by simp
  show ?thesis
  proof (cases "obj_get (pendingTimers w) k")
    case None
    with a show ?thesis
      by (simp add: ResolveApproval resolveApproval_unknown)
  next
    case (Some pd)
    from wellformed_entry [OF wf obj_get_mem [OF Some]] k a have "p_timer pd \<noteq> h"
      by (auto simp: armed_with_def)
    with resolveApproval_found [OF Some, of js appr rsn] a show ?thesis
      by (auto simp: ResolveApproval armed_with_def)
  qed
next
  case (Advance T)
  from advance_armed [OF wf a, of T js] show ?thesis
    by (auto simp: Advance split: if_splits)
next
  case Destroy
  with x show ?thesis by simp
qed

lemma run_armed:
  assumes "wellformed w" "armed_with w h t \<or> timed_out_with js w t"
    and "Destroy \<notin> set xs" "\<forall>x\<in>set xs. \<not> resolves (t_requestId t) x"
  shows "armed_with (run js xs w) h t \<or> timed_out_with js (run js xs w) t"
  using assms
proof (induction xs arbitrary: w)
  case Nil
  then show ?case by simp
next
  case (Cons x xs)
  have wf': "wellformed (step js x w)" using Cons.prems(1) by (rule wellformed_step)
  have "armed_with (step js x w) h t \<or> timed_out_with js (step js x w) t"
    using Cons.prems(2)
  proof
    assume "armed_with w h t"
    from step_armed [OF Cons.prems(1) this, of x js] Cons.prems(3,4) show ?thesis by auto
  next
    assume "timed_out_with js w t"
    from timed_out_with_stable [OF this world_evolves_step [OF Cons.prems(1)]]
    show ?thesis by simp
  qed
  from Cons.IH [OF wf' this] Cons.prems(3,4) show ?case by simp
qed

lemma timeout_in_time:
  assumes wf: "wellformed w" and a: "armed_with w h t"
    and xs: "Destroy \<notin> set xs" "\<forall>x\<in>set xs. \<not> resolves (t_requestId t) x"
    and T: "t_due t \<le> of_int T"
  shows "timed_out_with js (advance js T (run js xs w)) t"
proof -
  have wf': "wellformed (run js xs w)" using wf by (rule wellformed_run)
  from run_armed [OF wf _ xs, of h js] a
  have "armed_with (run js xs w) h t \<or> timed_out_with js (run js xs w) t" by simp
  then show ?thesis
  proof
    assume "armed_with (run js xs w) h t"
    from advance_armed [OF wf' this, of T js] T show ?thesis by simp
  next
    assume "timed_out_with js (run js xs w) t"
    then show ?thesis
      using world_evolves_advance [OF wf'] by (rule timed_out_with_stable)
  qed
qed

lemma pending_request_times_out:
  assumes wf: "wellformed w"
    and g: "findGate (gates w) phase = Some g"
    and xs: "Destroy \<notin> set xs" "\<forall>x\<in>set xs. \<not> resolves (new_requestId js (clock w) rnd) x"
    and T: "of_int (clock w) + setTimeout_delay (timeout_ms g) \<le> of_int T"
  shows "timed_out_with js
           (advance js T (run js xs (fst (requestApproval js rnd phase ctx w))))
           (new_timer js rnd g w)"
proof -
  let ?t = "new_timer js rnd g w"
  let ?w1 = "fst (requestApproval js rnd phase ctx w)"
  have wf1: "wellformed ?w1"
    using wf by (rule wellformed_requestApproval)
  have a: "armed_with ?w1 (length (timers w)) ?t"
    by (simp add: armed_with_def requestApproval_gate [OF g])
  have id: "t_requestId ?t = new_requestId js (clock w) rnd"
    and due: "t_due ?t \<le> of_int T"
    using T by (simp_all add: new_timer_def)
  from xs have xs': "\<forall>x\<in>set xs. \<not> resolves (t_requestId ?t) x"
    by (simp add: id)
  from timeout_in_time [OF wf1 a xs(1) xs' due, of js] show ?thesis .
qed

subsection \<open>When nothing throws\<close>

text \<open>
  An operation that returns has done what the function named after the method says.
\<close>

lemma saveState_io_Returns:
  "saveState_io fs js w = Returns u w' \<Longrightarrow> w' = saveState js w"
  by (simp add: saveState_io_def split: option.splits)

lemma requestApproval_io_Returns:
  assumes "requestApproval_io fs js rnd phase ctx w = Returns p w'"
  shows "requestApproval js rnd phase ctx w = (w', p)"
proof (cases "findGate (gates w) phase")
  case None
  with assms show ?thesis
    by (auto simp: requestApproval_io_def requestApproval_def)
next
  case (Some g)
  with assms show ?thesis
    by (cases "fs (w\<lparr>state := (state w)\<lparr>requests := requests (state w) @
          [new_request js rnd phase ctx g w]\<rparr>\<rparr>)")
      (auto simp: requestApproval_io_def requestApproval_def saveState_io_def Let_def
        new_request_def)
qed

lemma timeoutCallback_io_Returns:
  assumes "timeoutCallback_io fs js h w = Returns u w'"
  shows "w' = timeoutCallback js h w"
  using assms
  by (auto simp: timeoutCallback_io_def timeoutCallback_def saveState_io_def Let_def
      split: option.splits if_splits)

lemma resolveApproval_io_Returns:
  assumes "resolveApproval_io fs js k appr rsn w = Returns b w'"
  shows "resolveApproval js k appr rsn w = Inr (b, w')"
  using assms
  by (auto simp: resolveApproval_io_def resolveApproval_def saveState_io_def Let_def
      split: option.splits if_splits)

lemma advance_io_idle:
  "due_handles T w = [] \<Longrightarrow> advance_io fs js T w = Returns () (w\<lparr>clock := max (clock w) T\<rparr>)"
  by (simp add: advance_io.simps)

lemma advance_io_fire:
  "due_handles T w = h # hs \<Longrightarrow>
   advance_io fs js T w =
     (case timeoutCallback_io fs js (arg_min_list (due_at w) (h # hs)) w of
        Throws e w' \<Rightarrow> Throws e w'
      | Returns u w' \<Rightarrow> advance_io fs js T w')"
  by (subst advance_io.simps) simp

lemma advance_io_Returns:
  "advance_io fs js T w = Returns u w' \<Longrightarrow> w' = advance js T w"
proof (induction fs js T w rule: advance_io.induct)
  case (1 fs js T w)
  show ?case
  proof (cases "due_handles T w")
    case Nil
    with 1(2) show ?thesis by (simp add: advance_io_idle advance_idle)
  next
    case (Cons h hs)
    let ?m = "arg_min_list (due_at w) (h # hs)"
    show ?thesis
    proof (cases "timeoutCallback_io fs js ?m w")
      case (Throws e w0)
      with 1(2) Cons show ?thesis by (simp add: advance_io_fire)
    next
      case (Returns u0 w0)
      with 1(2) Cons have "advance_io fs js T w0 = Returns u w'"
        by (simp add: advance_io_fire)
      from 1(1) [OF Cons Returns this] have "w' = advance js T w0" .
      moreover from Returns have "w0 = timeoutCallback js ?m w"
        by (rule timeoutCallback_io_Returns)
      ultimately show ?thesis by (simp add: advance_fire [OF Cons])
    qed
  qed
qed

lemma step_io_Returns:
  "step_io fs js x w = Returns u w' \<Longrightarrow> w' = step js x w"
proof (cases x)
  case (RequestApproval rnd phase ctx)
  assume "step_io fs js x w = Returns u w'"
  with RequestApproval obtain p where
    "requestApproval_io fs js rnd phase ctx w = Returns p w'"
    by (auto split: outcome.splits)
  from requestApproval_io_Returns [OF this] show ?thesis by (simp add: RequestApproval)
next
  case (ResolveApproval k appr rsn)
  assume "step_io fs js x w = Returns u w'"
  with ResolveApproval obtain b where
    "resolveApproval_io fs js k appr rsn w = Returns b w'"
    by (auto split: outcome.splits)
  from resolveApproval_io_Returns [OF this] show ?thesis by (simp add: ResolveApproval)
next
  case (Advance T)
  assume "step_io fs js x w = Returns u w'"
  with Advance show ?thesis by (simp add: advance_io_Returns)
next
  case Destroy
  assume "step_io fs js x w = Returns u w'"
  with Destroy show ?thesis by simp
qed

lemma run_io_Returns:
  "run_io fs js xs w = Returns u w' \<Longrightarrow> w' = run js xs w"
proof (induction xs arbitrary: w)
  case Nil
  then show ?case by simp
next
  case (Cons x xs)
  from Cons.prems obtain u0 w0 where s: "step_io fs js x w = Returns u0 w0"
    and r: "run_io fs js xs w0 = Returns u w'"
    by (auto split: outcome.splits)
  from step_io_Returns [OF s] Cons.IH [OF r] show ?case by simp
qed

subsection \<open>A file system that never fails\<close>

text \<open>
  When no write fails and no inherited name is passed to \<^verbatim>\<open>resolveApproval\<close>, every
  operation returns.
\<close>

lemma requestApproval_io_no_fault:
  "requestApproval_io no_fault js rnd phase ctx w =
     Returns (snd (requestApproval js rnd phase ctx w)) (fst (requestApproval js rnd phase ctx w))"
  by (cases "findGate (gates w) phase")
    (simp_all add: requestApproval_io_def requestApproval_def saveState_io_def no_fault_def
      Let_def)

lemma timeoutCallback_io_no_fault:
  "timeoutCallback_io no_fault js h w = Returns () (timeoutCallback js h w)"
  by (simp add: timeoutCallback_io_def timeoutCallback_def saveState_io_def no_fault_def
      Let_def split: option.splits)

lemma resolveApproval_io_no_fault:
  "resolveApproval_io no_fault js k appr rsn w =
     (case resolveApproval js k appr rsn w of
        Inl e \<Rightarrow> Throws e w
      | Inr (b, w') \<Rightarrow> Returns b w')"
  by (simp add: resolveApproval_io_def resolveApproval_def saveState_io_def no_fault_def
      Let_def split: option.splits)

lemma advance_io_no_fault:
  "advance_io no_fault js T w = Returns () (advance js T w)"
proof (induction js T w rule: advance.induct)
  case (1 js T w)
  show ?case
  proof (cases "due_handles T w")
    case Nil
    then show ?thesis by (simp add: advance_io_idle advance_idle)
  next
    case (Cons h hs)
    from 1 [OF Cons] show ?thesis
      by (simp add: advance_io_fire [OF Cons] advance_fire [OF Cons]
          timeoutCallback_io_no_fault)
  qed
qed

lemma step_io_no_fault:
  "\<not> inherited x \<Longrightarrow> step_io no_fault js x w = Returns () (step js x w)"
proof (cases x)
  case (ResolveApproval k appr rsn)
  assume "\<not> inherited x"
  with ResolveApproval have "k \<notin> set Object_prototype_keys" by simp
  then show ?thesis
    by (cases "obj_get (pendingTimers w) k")
      (simp_all add: ResolveApproval resolveApproval_io_no_fault resolveApproval_def Let_def)
qed (simp_all add: requestApproval_io_no_fault advance_io_no_fault)

lemma run_io_no_fault:
  "\<forall>x\<in>set xs. \<not> inherited x \<Longrightarrow> run_io no_fault js xs w = Returns () (run js xs w)"
  by (induction xs arbitrary: w) (simp_all add: step_io_no_fault)


subsection \<open>Evaluating the examples\<close>

lemmas evaluate =
  constructor_def test_gates_def test_runtime_def requestApproval_def resolveApproval_def
  timeoutCallback_def destroy_def Let_def loadState_def loadState_try_def existsSync_def
  empty_state_def parse_def saveState_def writeFileSync_def writeFileSync_steps_def
  settle_def addAudit_def resolve_def clearTimeout_def sendWebhook_def
  obj_get_def obj_set_def obj_delete_def new_requestId_def timeout_ms_def timeout_reason_def
  DEFAULT_TIMEOUT_MINUTES_def Object_prototype_keys_def advance.simps due_handles_def
  due_at_def setTimeout_delay_def TIMEOUT_MAX_def decimals_def

text \<open>
  A write that fails in the callback of the timer: the request for the \<open>deploy\<close> gate
  of the tests is made while the file system works, and from the time 600 on every
  write fails. The callback marks the request \<open>timed_out\<close> in memory, \<^verbatim>\<open>_saveState\<close>
  throws, and the promise is never resolved: the timer is spent.
\<close>

lemma failed_write_leaves_promise_pending:
  "requestApproval_io (fault_from 600) test_runtime ''x7k2p9'' ''deploy'' None
     (constructor test_runtime test_gates 0 Missing) =
     Returns 0 (fst (requestApproval test_runtime ''x7k2p9'' ''deploy'' None
       (constructor test_runtime test_gates 0 Missing))) \<and>
   (case advance_io (fault_from 600) test_runtime 600
           (fst (requestApproval test_runtime ''x7k2p9'' ''deploy'' None
             (constructor test_runtime test_gates 0 Missing))) of
      Returns u w' \<Rightarrow> False
    | Throws e w' \<Rightarrow>
        e = SaveError \<and> r_status (requests (state w') ! 0) = ''timed_out'' \<and>
        promises w' ! 0 = [] \<and> timers w' = [None])"
  by (simp add: evaluate requestApproval_io_def timeoutCallback_io_def saveState_io_def
      fault_from_def advance_io.simps)

text \<open>
  A write that fails in \<^verbatim>\<open>requestApproval\<close>: the request is pushed, and there is neither
  a promise nor a timer for it. A write that fails in \<^verbatim>\<open>resolveApproval\<close>: the timer is
  cleared and the request \<open>approved\<close> in memory, and the promise is never resolved.
\<close>

lemma failed_write_arms_no_timer:
  "(case requestApproval_io (fault_from 0) test_runtime ''x7k2p9'' ''deploy'' None
           (constructor test_runtime test_gates 0 Missing) of
      Returns p w' \<Rightarrow> False
    | Throws e w' \<Rightarrow>
        e = SaveError \<and> map r_status (requests (state w')) = [''pending''] \<and>
        promises w' = [] \<and> timers w' = [] \<and> pendingTimers w' = [])"
  by (simp add: evaluate requestApproval_io_def saveState_io_def fault_from_def)

lemma failed_write_in_resolveApproval:
  "(case resolveApproval_io (fault_from 0) test_runtime ''apr-0-x7k2p9'' True None
           (fst (requestApproval test_runtime ''x7k2p9'' ''release'' None
             (constructor test_runtime test_gates 0 Missing))) of
      Returns b w' \<Rightarrow> False
    | Throws e w' \<Rightarrow>
        e = SaveError \<and> r_status (requests (state w') ! 0) = ''approved'' \<and>
        promises w' ! 0 = [] \<and> timers w' = [None] \<and> pendingTimers w' = [])"
  by (simp add: evaluate resolveApproval_io_def saveState_io_def fault_from_def)

section \<open>The claims about the approval gates\<close>

text \<open>
  C1: a request for a gated phase times out and fails open. Let a manager be
  constructed over a state file that is absent, unreadable, not JSON, or a document a
  manager wrote, and let any operations follow, none of which throws. Let the gate \<open>g\<close>
  be the one of the phase, and let the operations \<open>xs\<close> follow the request, none of
  them \<^verbatim>\<open>destroy\<close> or a \<^verbatim>\<open>resolveApproval\<close> of the new request's id. Let \<open>T\<close> be at least
  the delay of the timer after the request. The minutes are the gate's
  \<open>timeout_minutes\<close>, or 30 when that is 0, \<^verbatim>\<open>null\<close> or absent; the delay is that many
  minutes in milliseconds, or 1 ms when this is below 1 ms or above \<open>2\<^sup>3\<^sup>1 - 1\<close> ms.

  Then, whenever \<^verbatim>\<open>requestApproval\<close> returns its promise, the operations \<open>xs\<close> return and
  the event loop runs up to \<open>T\<close> without an exception of a callback, the promise was
  pending when it was returned, and at \<open>T\<close> the request is \<open>timed_out\<close> and the promise is
  resolved once, with \<^verbatim>\<open>{approved: true, method: 'timeout'}\<close> and the reason that names the
  minutes. And they do return when no write of the state file fails and \<open>xs\<close> passes no
  inherited name to \<^verbatim>\<open>resolveApproval\<close>.
\<close>

theorem request_times_out_fail_open:
  assumes f: "f = Missing \<or> f = Unreadable \<or>
              (\<exists>raw. f = Readable raw \<and> JSON_parse js raw = None) \<or>
              (\<exists>s. f = Readable (JSON_stringify js s) \<and>
                   JSON_parse js (JSON_stringify js s) = Some s)"
    and w: "run_io fs js xs0 (constructor js gs now f) = Returns () w"
    and g: "findGate (gates w) phase = Some g"
    and m: "minutes = (case g_timeout_minutes g of
                         Num r \<Rightarrow> if r = 0 then 30 else r | Null \<Rightarrow> 30 | Absent \<Rightarrow> 30)"
    and d: "delay = (if 1 \<le> minutes * 60000 \<and> minutes * 60000 \<le> 2147483647
                     then minutes * 60000 else 1)"
    and nd: "Destroy \<notin> set xs"
    and nr: "\<forall>x\<in>set xs.
               \<not> resolves (''apr-'' @ Number_toString js (of_int (clock w)) @ ''-'' @ rnd) x"
    and T: "of_int (clock w) + delay \<le> of_int T"
  shows "(requestApproval_io fs js rnd phase ctx w = Returns p w1 \<and>
          run_io fs js xs w1 = Returns () w2 \<and>
          advance_io fs js T w2 = Returns () w3 \<longrightarrow>
            r_status (requests (state w1) ! length (requests (state w))) = ''pending'' \<and>
            promises w1 ! p = [] \<and>
            r_status (requests (state w3) ! length (requests (state w))) = ''timed_out'' \<and>
            r_method (requests (state w3) ! length (requests (state w))) = Some ''timeout'' \<and>
            promises w3 ! p =
              [\<lparr>approved = True,
                reason = ''Auto-approved after '' @ Number_toString js minutes @
                         '' minute timeout'',
                res_method = ''timeout''\<rparr>]) \<and>
         ((\<forall>v. fs v = None) \<and> (\<forall>x\<in>set xs. \<not> inherited x) \<longrightarrow>
            (\<exists>q v1 v2 v3.
               requestApproval_io fs js rnd phase ctx w = Returns q v1 \<and>
               run_io fs js xs v1 = Returns () v2 \<and>
               advance_io fs js T v2 = Returns () v3))"
proof (rule conjI; rule impI)
  assume "requestApproval_io fs js rnd phase ctx w = Returns p w1 \<and>
      run_io fs js xs w1 = Returns () w2 \<and> advance_io fs js T w2 = Returns () w3"
  then have r: "requestApproval_io fs js rnd phase ctx w = Returns p w1"
    and xs: "run_io fs js xs w1 = Returns () w2"
    and a: "advance_io fs js T w2 = Returns () w3"
    by simp_all
  let ?t = "new_timer js rnd g w"
  have w0: "w = run js xs0 (constructor js gs now f)"
    using w by (rule run_io_Returns)
  have wf: "wellformed w"
    unfolding w0 by (rule wellformed_run [OF wellformed_constructor])
  from r have r': "requestApproval js rnd phase ctx w = (w1, p)"
    by (rule requestApproval_io_Returns)
  then have w1: "w1 = fst (requestApproval js rnd phase ctx w)"
    and "p = snd (requestApproval js rnd phase ctx w)"
    by simp_all
  then have p: "p = length (promises w)"
    by (simp only: requestApproval_gate(1) [OF g])
  have w2: "w2 = run js xs w1" using xs by (rule run_io_Returns)
  have w3: "w3 = advance js T w2" using a by (rule advance_io_Returns)
  have min: "or_default (g_timeout_minutes g) DEFAULT_TIMEOUT_MINUTES = minutes"
    by (cases "g_timeout_minutes g") (simp_all add: m DEFAULT_TIMEOUT_MINUTES_def)
  then have "setTimeout_delay (timeout_ms g) = delay"
    by (simp add: timeout_ms_def setTimeout_delay_def TIMEOUT_MAX_def d)
  with T have T': "of_int (clock w) + setTimeout_delay (timeout_ms g) \<le> of_int T"
    by simp
  from nr have nr': "\<forall>x\<in>set xs. \<not> resolves (new_requestId js (clock w) rnd) x"
    by (simp add: new_requestId_def)
  have new: "r_status (requests (state w1) ! length (requests (state w))) = ''pending''"
    "promises w1 ! p = []"
    by (simp_all add: w1 p requestApproval_gate [OF g] new_request_def)
  from pending_request_times_out [OF wf g nd nr' T', of ctx]
  have "timed_out_with js w3 ?t"
    by (simp add: w3 w2 w1)
  with new show
    "r_status (requests (state w1) ! length (requests (state w))) = ''pending'' \<and>
     promises w1 ! p = [] \<and>
     r_status (requests (state w3) ! length (requests (state w))) = ''timed_out'' \<and>
     r_method (requests (state w3) ! length (requests (state w))) = Some ''timeout'' \<and>
     promises w3 ! p =
       [\<lparr>approved = True,
         reason = ''Auto-approved after '' @ Number_toString js minutes @
                  '' minute timeout'',
         res_method = ''timeout''\<rparr>]"
    by (simp add: timed_out_with_def new_timer_def p timeout_result_def timeout_reason_def
        min)
next
  assume "(\<forall>v. fs v = None) \<and> (\<forall>x\<in>set xs. \<not> inherited x)"
  then have fs: "fs = no_fault" and xs: "\<forall>x\<in>set xs. \<not> inherited x"
    by (auto simp: no_fault_def)
  show "\<exists>q v1 v2 v3.
      requestApproval_io fs js rnd phase ctx w = Returns q v1 \<and>
      run_io fs js xs v1 = Returns () v2 \<and>
      advance_io fs js T v2 = Returns () v3"
    unfolding fs
    using requestApproval_io_no_fault run_io_no_fault [OF xs] advance_io_no_fault
    by blast
qed

theorem request_times_out_fail_open_witness:
  "r_status (requests (state (advance test_runtime 600
       (run test_runtime [ResolveApproval ''nonexistent-id'' True None, Advance 100]
         (fst (requestApproval test_runtime ''x7k2p9'' ''deploy'' None
           (constructor test_runtime test_gates 0 Missing)))))) ! 0) = ''timed_out'' \<and>
   promises (advance test_runtime 600
       (run test_runtime [ResolveApproval ''nonexistent-id'' True None, Advance 100]
         (fst (requestApproval test_runtime ''x7k2p9'' ''deploy'' None
           (constructor test_runtime test_gates 0 Missing))))) ! 0 =
     [\<lparr>approved = True, reason = ''Auto-approved after 0.01 minute timeout'',
        res_method = ''timeout''\<rparr>]"
proof -
  let ?w = "constructor test_runtime test_gates 0 Missing"
  let ?g = "\<lparr>g_name = ''pre-deploy'', g_phase = ''deploy'', g_timeout_minutes = Num (1 / 100),
             g_webhook = None\<rparr>"
  let ?xs = "[ResolveApproval ''nonexistent-id'' True None, Advance 100]"
  let ?w1 = "fst (requestApproval test_runtime ''x7k2p9'' ''deploy'' None ?w)"
  have f: "Missing = Missing \<or> Missing = Unreadable \<or>
      (\<exists>raw. Missing = Readable raw \<and> JSON_parse test_runtime raw = None) \<or>
      (\<exists>s. Missing = Readable (JSON_stringify test_runtime s) \<and>
           JSON_parse test_runtime (JSON_stringify test_runtime s) = Some s)"
    by simp
  have w: "run_io no_fault test_runtime [] ?w = Returns () ?w" by simp
  have g: "findGate (gates ?w) ''deploy'' = Some ?g"
    by (simp add: constructor_def test_gates_def)
  have m: "(1 / 100 :: rat) = (case g_timeout_minutes ?g of
      Num r \<Rightarrow> if r = 0 then 30 else r | Null \<Rightarrow> 30 | Absent \<Rightarrow> 30)"
    by simp
  have d: "(600 :: rat) =
      (if 1 \<le> (1 / 100 :: rat) * 60000 \<and> (1 / 100 :: rat) * 60000 \<le> 2147483647
       then (1 / 100) * 60000 else 1)"
    by simp
  have r: "requestApproval_io no_fault test_runtime ''x7k2p9'' ''deploy'' None ?w =
      Returns 0 ?w1"
    using requestApproval_gate(1) [OF g, of test_runtime "''x7k2p9''" None]
    by (simp add: requestApproval_io_no_fault constructor_def)
  have xs: "run_io no_fault test_runtime ?xs ?w1 = Returns () (run test_runtime ?xs ?w1)"
    by (rule run_io_no_fault) (simp add: Object_prototype_keys_def)
  have nd: "Destroy \<notin> set ?xs" by simp
  have nr: "\<forall>x\<in>set ?xs. \<not> resolves
      (''apr-'' @ Number_toString test_runtime (of_int (clock ?w)) @ ''-'' @ ''x7k2p9'') x"
    by simp
  have a: "advance_io no_fault test_runtime 600 (run test_runtime ?xs ?w1) =
      Returns () (advance test_runtime 600 (run test_runtime ?xs ?w1))"
    by (rule advance_io_no_fault)
  have T: "of_int (clock ?w) + (600 :: rat) \<le> of_int 600"
    by (simp add: constructor_def)
  from request_times_out_fail_open [OF f w g m d nd nr T, of None 0 ?w1
      "run test_runtime ?xs ?w1" "advance test_runtime 600 (run test_runtime ?xs ?w1)"]
    r xs a
  show ?thesis
    by (simp add: test_runtime_def decimals_def constructor_def loadState_def
        loadState_try_def existsSync_def empty_state_def)
qed

text \<open>
  Without the proviso on \<^verbatim>\<open>destroy\<close> the request need not time out: \<^verbatim>\<open>destroy\<close> clears
  the timer, and a thousand times the timeout of the gate later the request is still
  \<open>pending\<close> and its promise unresolved, although nobody resolved it by hand.
\<close>

theorem destroyed_request_never_times_out:
  "findGate (gates (constructor test_runtime test_gates 0 Missing)) ''deploy'' =
     Some \<lparr>g_name = ''pre-deploy'', g_phase = ''deploy'', g_timeout_minutes = Num (1 / 100),
           g_webhook = None\<rparr> \<and>
   r_status (requests (state (advance test_runtime 600000
             (destroy (fst (requestApproval test_runtime ''x7k2p9'' ''deploy'' None
               (constructor test_runtime test_gates 0 Missing)))))) ! 0) = ''pending'' \<and>
   promises (advance test_runtime 600000
             (destroy (fst (requestApproval test_runtime ''x7k2p9'' ''deploy'' None
               (constructor test_runtime test_gates 0 Missing))))) ! 0 = []"
  by (simp add: constructor_def test_gates_def requestApproval_def Let_def loadState_def
      loadState_try_def existsSync_def empty_state_def saveState_def destroy_def
      clearTimeout_def obj_set_def obj_delete_def advance.simps due_handles_def
      writeFileSync_def writeFileSync_steps_def)

text \<open>
  Resolving twice. For the id of a pending request in a world the manager can reach, the
  first \<^verbatim>\<open>resolveApproval\<close> returns \<open>True\<close> and the second \<open>False\<close>, leaving the world
  as it is; the promise is resolved once, and whatever follows does not resolve it
  again. An id with no entry that is not an inherited name gives \<open>False\<close> and the same
  world.
\<close>

lemma resolveApproval_twice:
  assumes w: "w = run js xs (constructor js gs now f)"
    and pd: "obj_get (pendingTimers w) k = Some pd"
  shows "\<exists>w1. resolveApproval js k a1 r1 w = Inr (True, w1) \<and>
           resolveApproval js k a2 r2 w1 = Inr (False, w1) \<and>
           promises w1 ! p_resolve pd = [manual_result a1 r1] \<and>
           promises (run js ys w1) ! p_resolve pd = [manual_result a1 r1]"
proof -
  have wf: "wellformed w"
    unfolding w by (rule wellformed_run [OF wellformed_constructor])
  from wellformed_entry [OF wf obj_get_mem [OF pd]] obtain t where
    t: "p_timer pd < length (timers w)" "timers w ! p_timer pd = Some t" and
    eq: "t_requestId t = k" "t_request t = p_request pd" "t_resolve t = p_resolve pd"
    by blast
  from wellformed_timer [OF wf t] have ok: "p_resolve pd < length (promises w)"
    "promises w ! p_resolve pd = []" "k \<notin> set Object_prototype_keys"
    by (simp_all add: eq [symmetric])
  from resolveApproval_found [OF pd, of js a1 r1] obtain w1 where
    w1: "resolveApproval js k a1 r1 w = Inr (True, w1)"
      "pendingTimers w1 = obj_delete k (pendingTimers w)"
      "promises w1 = (promises w)[p_resolve pd :=
           promises w ! p_resolve pd @ [manual_result a1 r1]]"
    by blast
  have wf1: "wellformed w1" using wf w1(1) by (rule wellformed_resolveApproval)
  have second: "resolveApproval js k a2 r2 w1 = Inr (False, w1)"
    using ok(3) by (simp add: resolveApproval_unknown w1(2) obj_get_delete)
  have once: "promises w1 ! p_resolve pd = [manual_result a1 r1]"
    using ok by (simp add: w1(3))
  from ok have "p_resolve pd < length (promises w1)" by (simp add: w1(3))
  with world_evolves_run [OF wf1, of js ys]
  have "promise_evolves (promises w1 ! p_resolve pd) (promises (run js ys w1) ! p_resolve pd)"
    by (simp add: world_evolves_iff)
  with once have "promises (run js ys w1) ! p_resolve pd = [manual_result a1 r1]"
    by (auto simp: promise_evolves_def)
  with w1(1) second once show ?thesis by blast
qed

lemma resolveApproval_unknown_id:
  assumes "obj_get (pendingTimers w) k = None" "k \<notin> set Object_prototype_keys"
  shows "resolveApproval js k appr rsn w = Inr (False, w)"
  using assms by (simp add: resolveApproval_unknown)

text \<open>
  C2: \<^verbatim>\<open>resolveApproval\<close> for an id that names no pending request is to return
  \<open>False\<close> and change nothing. For the id \<open>constructor\<close>, which no request has, the
  lookup in the pending table finds the function every object inherits, and the call
  throws a \<^verbatim>\<open>TypeError\<close>.
\<close>

theorem resolveApproval_inherited_name_throws:
  "resolveApproval test_runtime ''constructor'' True None
     (constructor test_runtime test_gates 0 Missing) = Inl TypeError"
  by (simp add: resolveApproval_def constructor_def obj_get_def Object_prototype_keys_def)

text \<open>
  C3: the status of a request moves only from \<open>pending\<close> to \<open>approved\<close>, \<open>rejected\<close> or
  \<open>timed_out\<close>. Let \<open>w\<close> be any world the manager can reach and \<open>w'\<close> any world it
  reaches from there. Every request of \<open>w\<close> is still there in \<open>w'\<close>, and it is unchanged
  unless it was \<open>pending\<close> and is now in a final status; so a request in a final
  status never changes again. Timeout and manual resolution exclude each other through
  the pending table: after the timer of a request has fired, \<^verbatim>\<open>resolveApproval\<close> for its
  id finds no entry, returns \<open>False\<close> and leaves the world as it is; after a manual
  resolution the entry is gone and the timer is cleared, so time passing does not touch
  the request.
\<close>

theorem request_status_state_machine:
  assumes w: "w = run js xs (constructor js gs now f)"
    and w': "w' = run js ys w"
  shows "(\<forall>i<length (requests (state w)).
            i < length (requests (state w')) \<and>
            (requests (state w') ! i = requests (state w) ! i \<or>
             r_status (requests (state w) ! i) = ''pending'' \<and>
             r_status (requests (state w') ! i) \<in> {''approved'', ''rejected'', ''timed_out''}) \<and>
            (r_status (requests (state w) ! i) \<in> {''approved'', ''rejected'', ''timed_out''} \<longrightarrow>
             requests (state w') ! i = requests (state w) ! i)) \<and>
         (\<forall>h t appr rsn. h < length (timers w) \<longrightarrow> timers w ! h = Some t \<longrightarrow>
            r_status (requests (state (timeoutCallback js h w)) ! t_request t) = ''timed_out'' \<and>
            resolveApproval js (t_requestId t) appr rsn (timeoutCallback js h w) =
              Inr (False, timeoutCallback js h w)) \<and>
         (\<forall>k pd appr rsn. obj_get (pendingTimers w) k = Some pd \<longrightarrow>
            (\<exists>w2. resolveApproval js k appr rsn w = Inr (True, w2) \<and>
               r_status (requests (state w2) ! p_request pd) =
                 (if appr then ''approved'' else ''rejected'') \<and>
               obj_get (pendingTimers w2) k = None \<and>
               timers w2 ! p_timer pd = None \<and>
               (\<forall>T. requests (state (advance js T w2)) ! p_request pd =
                    requests (state w2) ! p_request pd)))"
proof (intro conjI allI impI)
  have wf: "wellformed w"
    unfolding w by (rule wellformed_run [OF wellformed_constructor])
  have ev: "world_evolves w w'"
    unfolding w' using wf by (rule world_evolves_run)
  {
    fix i assume i: "i < length (requests (state w))"
    from ev i show "i < length (requests (state w'))"
      by (simp add: world_evolves_iff)
    from ev i have re: "request_evolves (requests (state w) ! i) (requests (state w') ! i)"
      by (simp add: world_evolves_iff)
    then show "requests (state w') ! i = requests (state w) ! i \<or>
        r_status (requests (state w) ! i) = ''pending'' \<and>
        r_status (requests (state w') ! i) \<in> {''approved'', ''rejected'', ''timed_out''}"
      by (auto simp: request_evolves_def terminal_def)
    assume "r_status (requests (state w) ! i) \<in> {''approved'', ''rejected'', ''timed_out''}"
    with re show "requests (state w') ! i = requests (state w) ! i"
      by (auto simp: request_evolves_def)
  }
  {
    fix h t appr rsn assume t: "h < length (timers w)" "timers w ! h = Some t"
    note ok = wellformed_timer [OF wf t]
    from ok show "r_status (requests (state (timeoutCallback js h w)) ! t_request t) = ''timed_out''"
      by (simp add: timeoutCallback_armed [OF t])
    have "obj_get (pendingTimers (timeoutCallback js h w)) (t_requestId t) = None"
      by (simp add: timeoutCallback_armed [OF t] obj_get_delete)
    with ok show "resolveApproval js (t_requestId t) appr rsn (timeoutCallback js h w) =
        Inr (False, timeoutCallback js h w)"
      by (simp add: resolveApproval_unknown)
  }
  {
    fix k pd appr rsn assume pd: "obj_get (pendingTimers w) k = Some pd"
    from wellformed_entry [OF wf obj_get_mem [OF pd]] obtain t where
      t: "p_timer pd < length (timers w)" "timers w ! p_timer pd = Some t" and
      eq: "t_requestId t = k" "t_request t = p_request pd" "t_resolve t = p_resolve pd"
      by blast
    note ok = wellformed_timer [OF wf t]
    from resolveApproval_found [OF pd, of js appr rsn] obtain w2 where
      w2: "resolveApproval js k appr rsn w = Inr (True, w2)"
        "timers w2 = (timers w)[p_timer pd := None]"
        "pendingTimers w2 = obj_delete k (pendingTimers w)"
        "requests (state w2) = (requests (state w))[p_request pd :=
           resolved appr rsn (clock w) (requests (state w) ! p_request pd)]"
      by blast
    have wf2: "wellformed w2" using wf w2(1) by (rule wellformed_resolveApproval)
    have st: "r_status (requests (state w2) ! p_request pd) =
        (if appr then ''approved'' else ''rejected'')"
      using ok by (simp add: w2 eq [symmetric])
    have frozen: "requests (state (advance js T w2)) ! p_request pd =
        requests (state w2) ! p_request pd" for T
    proof -
      from ok have "p_request pd < length (requests (state w2))"
        by (simp add: w2 eq [symmetric])
      with world_evolves_advance [OF wf2, of js T]
      have "request_evolves (requests (state w2) ! p_request pd)
          (requests (state (advance js T w2)) ! p_request pd)"
        by (simp add: world_evolves_iff)
      with st show ?thesis
        by (auto simp: request_evolves_def split: if_splits)
    qed
    show "\<exists>w2. resolveApproval js k appr rsn w = Inr (True, w2) \<and>
        r_status (requests (state w2) ! p_request pd) =
          (if appr then ''approved'' else ''rejected'') \<and>
        obj_get (pendingTimers w2) k = None \<and>
        timers w2 ! p_timer pd = None \<and>
        (\<forall>T. requests (state (advance js T w2)) ! p_request pd =
             requests (state w2) ! p_request pd)"
      using w2(1) st frozen t(1) by (auto simp: w2 obj_get_delete)
  }
qed


theorem request_status_state_machine_witness:
  "r_status (requests (state (run test_runtime [RequestApproval ''x7k2p9'' ''release'' None]
       (constructor test_runtime test_gates 0 Missing))) ! 0) = ''pending'' \<and>
   r_status (requests (state (run test_runtime
       [ResolveApproval ''apr-0-x7k2p9'' True (Some ''LGTM''), Advance 1800000,
        ResolveApproval ''apr-0-x7k2p9'' False None]
       (run test_runtime [RequestApproval ''x7k2p9'' ''release'' None]
         (constructor test_runtime test_gates 0 Missing)))) ! 0) = ''approved''"
proof -
  let ?xs = "[RequestApproval ''x7k2p9'' ''release'' None]"
  let ?ys = "[ResolveApproval ''apr-0-x7k2p9'' True (Some ''LGTM''), Advance 1800000,
        ResolveApproval ''apr-0-x7k2p9'' False None]"
  let ?w = "run test_runtime ?xs (constructor test_runtime test_gates 0 Missing)"
  have len: "0 < length (requests (state ?w))"
    and before: "r_status (requests (state ?w) ! 0) = ''pending''"
    by (simp_all add: evaluate)
  have "requests (state (run test_runtime ?ys ?w)) ! 0 \<noteq> requests (state ?w) ! 0"
    by (simp add: evaluate)
  with request_status_state_machine [where js = test_runtime and xs = ?xs and
      gs = test_gates and now = 0 and f = Missing and ys = ?ys, OF refl refl] len
  have "r_status (requests (state (run test_runtime ?ys ?w)) ! 0) \<in>
      {''approved'', ''rejected'', ''timed_out''}"
    by blast
  moreover have "r_status (requests (state (run test_runtime ?ys ?w)) ! 0) \<noteq> ''rejected''"
    "r_status (requests (state (run test_runtime ?ys ?w)) ! 0) \<noteq> ''timed_out''"
    by (simp_all add: evaluate)
  ultimately show ?thesis using before by simp
qed

text \<open>
  C4: for a phase with no matching gate, \<^verbatim>\<open>requestApproval\<close> returns a promise that
  is already resolved with \<^verbatim>\<open>{approved: true, method: 'auto'}\<close>; no request is created
  or written to the state file, no timer is armed, nothing enters the pending table and
  no webhook is sent.
\<close>

theorem requestApproval_without_gate:
  assumes "findGate (gates w) phase = None"
    and "requestApproval js rnd phase ctx w = (w', p)"
  shows "promises w' ! p =
           [\<lparr>approved = True, reason = ''No approval gate configured for phase: '' @ phase,
              res_method = ''auto''\<rparr>] \<and>
         state w' = state w \<and> disk w' = disk w \<and> timers w' = timers w \<and>
         pendingTimers w' = pendingTimers w \<and> sent w' = sent w \<and>
         getPendingRequests w' = getPendingRequests w"
  using assms by (auto simp: requestApproval_def getPendingRequests_def)

theorem requestApproval_without_gate_witness:
  "findGate (gates (constructor test_runtime test_gates 0 Missing)) ''build'' = None \<and>
   promises (fst (requestApproval test_runtime ''x7k2p9'' ''build'' (Some ''{}'')
       (constructor test_runtime test_gates 0 Missing))) ! 0 =
     [\<lparr>approved = True, reason = ''No approval gate configured for phase: build'',
        res_method = ''auto''\<rparr>] \<and>
   getPendingRequests (fst (requestApproval test_runtime ''x7k2p9'' ''build'' (Some ''{}'')
       (constructor test_runtime test_gates 0 Missing))) = [] \<and>
   disk (fst (requestApproval test_runtime ''x7k2p9'' ''build'' (Some ''{}'')
       (constructor test_runtime test_gates 0 Missing))) = Missing \<and>
   timers (fst (requestApproval test_runtime ''x7k2p9'' ''build'' (Some ''{}'')
       (constructor test_runtime test_gates 0 Missing))) = []"
proof -
  let ?w = "constructor test_runtime test_gates 0 Missing"
  have g: "findGate (gates ?w) ''build'' = None"
    by (simp add: constructor_def test_gates_def)
  have r: "requestApproval test_runtime ''x7k2p9'' ''build'' (Some ''{}'') ?w =
      (fst (requestApproval test_runtime ''x7k2p9'' ''build'' (Some ''{}'') ?w), 0)"
    by (simp add: requestApproval_def constructor_def test_gates_def)
  from requestApproval_without_gate [OF g r] g show ?thesis
    by (simp add: constructor_def getPendingRequests_def loadState_def loadState_try_def
        existsSync_def empty_state_def)
qed

text \<open>
  C7: after every mutation of the approval state (a new pending request,
  a timeout, a manual resolution) the state file holds the serialization of the whole
  current state \<^verbatim>\<open>{requests, audit}\<close>. The file is written in place by
  \<^verbatim>\<open>fs.writeFileSync\<close>, which truncates it and then writes the document: there is no
  temporary file and no rename, and between the two steps the file is empty.
\<close>

theorem state_file_rewritten_in_place:
  "(findGate (gates w) phase \<noteq> None \<longrightarrow>
      disk (fst (requestApproval js rnd phase ctx w)) =
        Readable (JSON_stringify js (state (fst (requestApproval js rnd phase ctx w))))) \<and>
   (h < length (timers w) \<and> timers w ! h \<noteq> None \<longrightarrow>
      disk (timeoutCallback js h w) =
        Readable (JSON_stringify js (state (timeoutCallback js h w)))) \<and>
   (obj_get (pendingTimers w) k \<noteq> None \<longrightarrow>
      (\<exists>w'. resolveApproval js k appr rsn w = Inr (True, w') \<and>
            disk w' = Readable (JSON_stringify js (state w')))) \<and>
   saveState_observable js w = [disk w, Readable [], Readable (JSON_stringify js (state w))] \<and>
   disk (saveState js w) = last (saveState_observable js w)"
proof (intro conjI impI)
  assume "findGate (gates w) phase \<noteq> None"
  then obtain g where "findGate (gates w) phase = Some g" by auto
  then show "disk (fst (requestApproval js rnd phase ctx w)) =
      Readable (JSON_stringify js (state (fst (requestApproval js rnd phase ctx w))))"
    by (rule requestApproval_gate(9))
next
  assume "h < length (timers w) \<and> timers w ! h \<noteq> None"
  then obtain t where "h < length (timers w)" "timers w ! h = Some t" by auto
  then show "disk (timeoutCallback js h w) =
      Readable (JSON_stringify js (state (timeoutCallback js h w)))"
    by (rule timeoutCallback_armed(8))
next
  assume "obj_get (pendingTimers w) k \<noteq> None"
  then obtain pd where "obj_get (pendingTimers w) k = Some pd" by auto
  from resolveApproval_found [OF this, of js appr rsn]
  show "\<exists>w'. resolveApproval js k appr rsn w = Inr (True, w') \<and>
      disk w' = Readable (JSON_stringify js (state w'))"
    by blast
next
  show "saveState_observable js w =
      [disk w, Readable [], Readable (JSON_stringify js (state w))]"
    by (simp add: saveState_observable_def writeFileSync_steps_def)
  show "disk (saveState js w) = last (saveState_observable js w)"
    by (simp add: saveState_observable_def writeFileSync_steps_def)
qed

theorem state_file_rewritten_in_place_witness:
  "disk (fst (requestApproval test_runtime ''x7k2p9'' ''release'' None
       (constructor test_runtime test_gates 0 Missing))) =
     Readable ''{apr-0-x7k2p9:pending;|}'' \<and>
   disk (timeoutCallback test_runtime 0
       (fst (requestApproval test_runtime ''x7k2p9'' ''release'' None
          (constructor test_runtime test_gates 0 Missing)))) =
     Readable ''{apr-0-x7k2p9:timed_out;|apr-0-x7k2p9;}''"
proof -
  let ?w0 = "constructor test_runtime test_gates 0 Missing"
  let ?w1 = "fst (requestApproval test_runtime ''x7k2p9'' ''release'' None ?w0)"
  have g: "findGate (gates ?w0) ''release'' \<noteq> None"
    by (simp add: evaluate)
  have h: "0 < length (timers ?w1) \<and> timers ?w1 ! 0 \<noteq> None"
    by (simp add: evaluate)
  have s1: "JSON_stringify test_runtime (state ?w1) = ''{apr-0-x7k2p9:pending;|}''"
    by (simp add: evaluate)
  have s2: "JSON_stringify test_runtime (state (timeoutCallback test_runtime 0 ?w1)) =
      ''{apr-0-x7k2p9:timed_out;|apr-0-x7k2p9;}''"
    by (simp add: evaluate)
  from state_file_rewritten_in_place [of ?w0 "''release''" test_runtime "''x7k2p9''" None]
    state_file_rewritten_in_place [of ?w1 _ test_runtime _ _ 0] g h
  show ?thesis by (simp only: s1 s2) blast
qed

text \<open>
  The write is not atomic: while \<^verbatim>\<open>_saveState\<close> runs, the state file is for a moment
  empty, which is neither the document it held before nor the new one, and does not
  parse.
\<close>

theorem saveState_shows_truncated_file:
  "saveState_observable test_runtime
     (fst (requestApproval test_runtime ''x7k2p9'' ''release'' None
        (constructor test_runtime test_gates 0 Missing))) ! 1 = Readable [] \<and>
   Readable [] \<noteq> disk (fst (requestApproval test_runtime ''x7k2p9'' ''release'' None
        (constructor test_runtime test_gates 0 Missing))) \<and>
   Readable [] \<noteq> Readable (JSON_stringify test_runtime
     (state (fst (requestApproval test_runtime ''x7k2p9'' ''release'' None
        (constructor test_runtime test_gates 0 Missing))))) \<and>
   JSON_parse test_runtime [] = None"
  by (simp add: evaluate saveState_observable_def)

text \<open>
  C8: when the state file cannot be read, or its content does not parse as JSON, the
  constructor returns a manager whose state is the empty \<^verbatim>\<open>{requests: [], audit: []}\<close>,
  with no pending timers; no error leaves \<^verbatim>\<open>_loadState\<close>.
\<close>

theorem corrupt_state_file_starts_fresh:
  assumes "f = Unreadable \<or> (\<exists>raw. f = Readable raw \<and> JSON_parse js raw = None)"
  shows "state (constructor js gs now f) = \<lparr>requests = [], audit = []\<rparr> \<and>
         pendingTimers (constructor js gs now f) = [] \<and>
         gates (constructor js gs now f) = gs \<and>
         (\<exists>e. loadState_try js f = Inl e)"
  using assms
  by (auto simp: constructor_def loadState_def loadState_try_def existsSync_def parse_def
      empty_state_def)

theorem corrupt_state_file_starts_fresh_witness:
  "JSON_parse test_runtime ''{requests: ['' = None \<and>
   state (constructor test_runtime test_gates 0 (Readable ''{requests: ['')) =
     \<lparr>requests = [], audit = []\<rparr> \<and>
   state (constructor test_runtime test_gates 0 Unreadable) = \<lparr>requests = [], audit = []\<rparr>"
proof -
  have p: "JSON_parse test_runtime ''{requests: ['' = None"
    by (simp add: test_runtime_def)
  then have "Readable ''{requests: ['' = Unreadable \<or>
      (\<exists>raw. Readable ''{requests: ['' = Readable raw \<and> JSON_parse test_runtime raw = None)"
    by simp
  from corrupt_state_file_starts_fresh [OF this, of test_gates 0]
    corrupt_state_file_starts_fresh [of Unreadable test_runtime test_gates 0] p
  show ?thesis by simp
qed

text \<open>
  C9: when the gate's \<open>timeout_minutes\<close> is 0, \<^verbatim>\<open>null\<close> or absent, \<^verbatim>\<open>requestApproval\<close> arms
  the timer for the default of 30 minutes: the timeout is 1800000 ms, the new timer is
  due that long after the request, the reason of the timeout names the default, and
  as long as the event loop has not run that far the request is still \<open>pending\<close>. A
  timeout of zero minutes cannot be had.
\<close>

theorem falsy_timeout_arms_default:
  assumes w: "w = run js xs (constructor js gs now f)"
    and g: "findGate (gates w) phase = Some g"
    and z: "g_timeout_minutes g = Num 0 \<or> g_timeout_minutes g = Null \<or>
            g_timeout_minutes g = Absent"
  shows "timeout_ms g = DEFAULT_TIMEOUT_MINUTES * 60 * 1000 \<and>
         timeout_ms g = 1800000 \<and>
         timers (fst (requestApproval js rnd phase ctx w)) ! length (timers w) =
           Some \<lparr>t_due = of_int (clock w) + 1800000,
                 t_requestId = new_requestId js (clock w) rnd,
                 t_request = length (requests (state w)), t_gate = g,
                 t_resolve = length (promises w)\<rparr> \<and>
         timeout_reason js g =
           ''Auto-approved after '' @ Number_toString js 30 @ '' minute timeout'' \<and>
         (\<forall>T. of_int T < of_int (clock w) + (1800000 :: rat) \<longrightarrow>
            r_status (requests (state (advance js T (fst (requestApproval js rnd phase ctx w)))) !
              length (requests (state w))) = ''pending'')"
proof (intro conjI allI impI)
  let ?w1 = "fst (requestApproval js rnd phase ctx w)"
  let ?t = "new_timer js rnd g w"
  from z show ms: "timeout_ms g = 1800000"
    by (auto simp: timeout_ms_def DEFAULT_TIMEOUT_MINUTES_def)
  then show "timeout_ms g = DEFAULT_TIMEOUT_MINUTES * 60 * 1000"
    by (simp add: DEFAULT_TIMEOUT_MINUTES_def)
  from ms show "timers ?w1 ! length (timers w) =
      Some \<lparr>t_due = of_int (clock w) + 1800000,
            t_requestId = new_requestId js (clock w) rnd,
            t_request = length (requests (state w)), t_gate = g,
            t_resolve = length (promises w)\<rparr>"
    by (simp add: requestApproval_gate [OF g] new_timer_def setTimeout_delay_def
        TIMEOUT_MAX_def)
  from z show "timeout_reason js g =
      ''Auto-approved after '' @ Number_toString js 30 @ '' minute timeout''"
    by (auto simp: timeout_reason_def DEFAULT_TIMEOUT_MINUTES_def)
  fix T :: int assume T: "of_int T < of_int (clock w) + (1800000 :: rat)"
  have wf: "wellformed w"
    unfolding w by (rule wellformed_run [OF wellformed_constructor])
  have wf1: "wellformed ?w1" using wf by (rule wellformed_requestApproval)
  have a: "armed_with ?w1 (length (timers w)) ?t"
    by (simp add: armed_with_def requestApproval_gate [OF g])
  from T ms have "\<not> t_due ?t \<le> of_int T"
    by (simp add: new_timer_def setTimeout_delay_def TIMEOUT_MAX_def)
  with advance_armed [OF wf1 a, of T js]
  have "armed_with (advance js T ?w1) (length (timers w)) ?t" by simp
  with wellformed_timer [OF wellformed_advance [OF wf1], of "length (timers w)" js T ?t]
  show "r_status (requests (state (advance js T ?w1)) ! length (requests (state w))) =
      ''pending''"
    by (simp add: armed_with_def new_timer_def)
qed

theorem falsy_timeout_arms_default_witness:
  "timers (fst (requestApproval test_runtime ''x7k2p9'' ''deploy'' None
       (run test_runtime [] (constructor test_runtime
          [\<lparr>g_name = ''pre-deploy'', g_phase = ''deploy'', g_timeout_minutes = Num 0,
            g_webhook = None\<rparr>] 5 Missing)))) ! 0 =
     Some \<lparr>t_due = 1800005, t_requestId = ''apr-5-x7k2p9'', t_request = 0,
           t_gate = \<lparr>g_name = ''pre-deploy'', g_phase = ''deploy'',
                      g_timeout_minutes = Num 0, g_webhook = None\<rparr>,
           t_resolve = 0\<rparr> \<and>
   r_status (requests (state (advance test_runtime 1800004
       (fst (requestApproval test_runtime ''x7k2p9'' ''deploy'' None
         (run test_runtime [] (constructor test_runtime
            [\<lparr>g_name = ''pre-deploy'', g_phase = ''deploy'', g_timeout_minutes = Num 0,
              g_webhook = None\<rparr>] 5 Missing)))))) ! 0) = ''pending''"
proof -
  let ?g = "\<lparr>g_name = ''pre-deploy'', g_phase = ''deploy'', g_timeout_minutes = Num 0,
            g_webhook = None\<rparr>"
  let ?w = "run test_runtime [] (constructor test_runtime [?g] 5 Missing)"
  have g: "findGate (gates ?w) ''deploy'' = Some ?g"
    by (simp add: constructor_def)
  have z: "g_timeout_minutes ?g = Num 0 \<or> g_timeout_minutes ?g = Null \<or>
      g_timeout_minutes ?g = Absent"
    by simp
  have T: "of_int 1800004 < of_int (clock ?w) + (1800000 :: rat)"
    by (simp add: constructor_def)
  from falsy_timeout_arms_default [OF refl g z, of "''x7k2p9''" None] T
  show ?thesis
    by (simp add: constructor_def new_requestId_def test_runtime_def loadState_def
        loadState_try_def existsSync_def empty_state_def)
qed

text \<open>
  C10: when \<^verbatim>\<open>resolveApproval\<close> resolves a pending request and the reason is left out,
  the reason of the result, of the request and of the audit record is
  \<open>Manually approved\<close> for an approval and \<open>Manually rejected\<close> for a rejection.
\<close>

theorem resolveApproval_default_reason:
  assumes w: "w = run js xs (constructor js gs now f)"
    and pd: "obj_get (pendingTimers w) k = Some pd"
  shows "\<exists>w'. resolveApproval js k appr None w = Inr (True, w') \<and>
           promises w' ! p_resolve pd =
             [\<lparr>approved = appr,
                reason = (if appr then ''Manually approved'' else ''Manually rejected''),
                res_method = ''manual''\<rparr>] \<and>
           r_reason (requests (state w') ! p_request pd) =
             Some (if appr then ''Manually approved'' else ''Manually rejected'') \<and>
           a_reason (last (audit (state w'))) =
             Some (if appr then ''Manually approved'' else ''Manually rejected'') \<and>
           a_id (last (audit (state w'))) = r_id (requests (state w) ! p_request pd) \<and>
           length (audit (state w')) = Suc (length (audit (state w)))"
proof -
  have wf: "wellformed w"
    unfolding w by (rule wellformed_run [OF wellformed_constructor])
  from wellformed_entry [OF wf obj_get_mem [OF pd]] obtain t where
    t: "p_timer pd < length (timers w)" "timers w ! p_timer pd = Some t" and
    eq: "t_requestId t = k" "t_request t = p_request pd" "t_resolve t = p_resolve pd"
    by blast
  from wellformed_timer [OF wf t] have ok: "p_request pd < length (requests (state w))"
    "p_resolve pd < length (promises w)" "promises w ! p_resolve pd = []"
    by (simp_all add: eq)
  from resolveApproval_found [OF pd, of js appr None] obtain w' where
    w': "resolveApproval js k appr None w = Inr (True, w')"
      "requests (state w') = (requests (state w))[p_request pd :=
           resolved appr None (clock w) (requests (state w) ! p_request pd)]"
      "promises w' = (promises w)[p_resolve pd :=
           promises w ! p_resolve pd @ [manual_result appr None]]"
    by blast
  note au = resolveApproval_found_audit [OF pd ok(1) w'(1)]
  show ?thesis
    using w'(1) ok
    by (intro exI [of _ w'])
      (simp add: w'(2,3) au manual_result_def manual_reason_def resolved_def)
qed

theorem resolveApproval_default_reason_witness:
  "promises (snd (projr (resolveApproval test_runtime ''apr-0-x7k2p9'' False None
       (run test_runtime [RequestApproval ''x7k2p9'' ''release'' None]
         (constructor test_runtime test_gates 0 Missing))))) ! 0 =
     [\<lparr>approved = False, reason = ''Manually rejected'', res_method = ''manual''\<rparr>]"
proof -
  let ?xs = "[RequestApproval ''x7k2p9'' ''release'' None]"
  let ?w = "run test_runtime ?xs (constructor test_runtime test_gates 0 Missing)"
  have pd: "obj_get (pendingTimers ?w) ''apr-0-x7k2p9'' =
      Some \<lparr>p_timer = 0, p_resolve = 0, p_request = 0\<rparr>"
    by (simp add: evaluate)
  from resolveApproval_default_reason [OF refl pd, of False] show ?thesis
    by auto
qed

section \<open>Proofs about the audit ledger\<close>

lemma append_all_chain:
  "segment (append_all H ser es l) = segment l @ chain_lines H ser (cursor l) es"
  by (induction es arbitrary: l) (simp_all add: append_def)

lemma length_chain_lines [simp]: "length (chain_lines H ser prev es) = length es"
  by (induction es arbitrary: prev) simp_all

lemma segment_rotate: "segment (append_all H ser es rotate) = chain_lines H ser genesis es"
  by (simp add: append_all_chain rotate_def)

lemma verify_from_chain_lines:
  "verify_from H ser prev n (chain_lines H ser prev es) =
     \<lparr>valid = True, entriesChecked = n + length es, firstTamperedLine = None\<rparr>"
  by (induction es arbitrary: prev n) simp_all

lemma chain_lines_nth:
  "k < length es \<Longrightarrow>
   chain_lines H ser prev es ! k = Entry (es ! k) (chain H ser (hash_before H ser prev es k) (es ! k))"
proof (induction es arbitrary: prev k)
  case Nil
  then show ?case by simp
next
  case (Cons e es)
  then show ?case by (cases k) simp_all
qed

lemma hash_before_Suc:
  "k < length es \<Longrightarrow>
   hash_before H ser prev es (Suc k) = chain H ser (hash_before H ser prev es k) (es ! k)"
proof (induction es arbitrary: prev k)
  case Nil
  then show ?case by simp
next
  case (Cons e es)
  then show ?case by (cases k) simp_all
qed

section \<open>The claims about the audit ledger\<close>

text \<open>
  C5: \<^verbatim>\<open>verify\<close> on the untouched segment of \<open>N\<close> appended entries returns
  \<^verbatim>\<open>{valid: true, entriesChecked: N}\<close>. Line \<open>i\<close> of the segment holds entry \<open>i\<close>; the
  \<open>chain_hash\<close> of line 0 is \<open>H\<close> of the genesis value followed by the serialized entry,
  that of a later line is \<open>H\<close> of the \<open>chain_hash\<close> of the line before followed by the
  serialized entry. The genesis value is 64 zero characters.
\<close>

theorem verify_untouched_segment:
  "verify H ser (segment (append_all H ser es rotate)) =
     \<lparr>valid = True, entriesChecked = length es, firstTamperedLine = None\<rparr> \<and>
   length (segment (append_all H ser es rotate)) = length es \<and>
   (\<forall>i<length es.
      segment (append_all H ser es rotate) ! i =
        Entry (es ! i)
          (H ((if i = 0 then genesis
               else the (stored_hash (segment (append_all H ser es rotate) ! (i - 1)))) @
              ser (es ! i)))) \<and>
   genesis = ''0000000000000000000000000000000000000000000000000000000000000000''"
proof (intro conjI allI impI)
  show "verify H ser (segment (append_all H ser es rotate)) =
      \<lparr>valid = True, entriesChecked = length es, firstTamperedLine = None\<rparr>"
    by (simp add: verify_def segment_rotate verify_from_chain_lines)
  show "length (segment (append_all H ser es rotate)) = length es"
    by (simp add: segment_rotate)
  show "genesis = ''0000000000000000000000000000000000000000000000000000000000000000''"
    by (simp add: genesis_def eval_nat_numeral)
next
  fix i assume i: "i < length es"
  have "hash_before H ser genesis es i =
      (if i = 0 then genesis else the (stored_hash (chain_lines H ser genesis es ! (i - 1))))"
  proof (cases i)
    case 0
    then show ?thesis by simp
  next
    case (Suc i')
    with i have "i' < length es" by simp
    with Suc show ?thesis
      by (simp add: hash_before_Suc chain_lines_nth)
  qed
  with i show "segment (append_all H ser es rotate) ! i =
      Entry (es ! i)
        (H ((if i = 0 then genesis
             else the (stored_hash (segment (append_all H ser es rotate) ! (i - 1)))) @
            ser (es ! i)))"
    by (simp add: segment_rotate chain_lines_nth chain_def)
qed

theorem verify_untouched_segment_witness:
  "verify rev test_serialize
     (segment (append_all rev test_serialize [session_start, session_stop] rotate)) =
     \<lparr>valid = True, entriesChecked = 2, firstTamperedLine = None\<rparr> \<and>
   segment (append_all rev test_serialize [session_start, session_stop] rotate) ! 1 =
     Entry session_stop
       (rev (the (stored_hash
          (segment (append_all rev test_serialize [session_start, session_stop] rotate) ! 0)) @
          test_serialize session_stop))"
  using verify_untouched_segment [of rev test_serialize "[session_start, session_stop]"]
  by simp


end
